theory Spec2Isabelle
  imports Main "HOL-Library.Multiset"
begin

section \<open>Stream deletion script: batching, classification, deletion, checkpoint\<close>

text \<open>
  A shallow embedding of \<^verbatim>\<open>index.js\<close>. The script lists the streams of a project, asks
  the API in batches of ten whether each stream has seen operations in the last days, keeps
  a status object (stream id to \<^verbatim>\<open>"inactive"\<close>, \<^verbatim>\<open>"unknown"\<close> or \<^verbatim>\<open>"deleted"\<close>), writes it to
  \<^verbatim>\<open>./streams-status.json\<close>, deletes the inactive streams unless it runs dry, and reports.

  What the embedding makes explicit:
  \<^item> the status object is shared and mutated in place; here it is a field of the state
    that every function takes and returns;
  \<^item> a promise that rejects is a value \<open>Inl err\<close>, one that resolves is \<open>Inr v\<close>;
  \<^item> the answers of the remote API are parameters (one answer for each request, named by
    the number of the batch and the position in the batch), and so are the order in which
    the batches of a \<^verbatim>\<open>Promise.map\<close> complete and the moment at which the answer to a
    delete request arrives;
  \<^item> the requests sent and the content of the checkpoint file are fields of the state.
  The credentials, the organisation, the project and the time window only build the URLs
  of the requests; they are left out, and so is the text written to the console.
\<close>

subsection \<open>Errors\<close>

datatype error =
    StatusCodeError nat   \<comment> \<open>the API answered with a failure status, 429 for rate limiting\<close>
  | RequestError          \<comment> \<open>the request did not complete\<close>
  | TypeError             \<comment> \<open>the answer has not the expected fields\<close>
  | SyntaxError           \<comment> \<open>\<^verbatim>\<open>JSON.parse\<close> on a malformed text\<close>
  | ENOENT                \<comment> \<open>\<^verbatim>\<open>fs.readFile\<close> on a missing file\<close>

subsection \<open>JavaScript objects with string keys and string values\<close>

text \<open>
  The status object, as an association list in the order in which \<^verbatim>\<open>Object.keys\<close>
  enumerates it: the keys that are array indices (canonical decimal numerals below
  \<open>2\<^sup>3\<^sup>2 - 1\<close>) in ascending numeric order, then the other keys in the order of their
  creation. Characters are code units below 256. An identifier is taken not to be
  \<^verbatim>\<open>__proto__\<close>, the one key that an assignment does not create.
\<close>

type_synonym stream_id = string
type_synonym ledger = "(string \<times> string) list"

definition is_digit :: "char \<Rightarrow> bool" where
  "is_digit c = (48 \<le> (of_char c :: int) \<and> (of_char c :: int) \<le> 57)"

definition numeric_value :: "string \<Rightarrow> int" where
  "numeric_value s = foldl (\<lambda>n c. 10 * n + ((of_char c :: int) - 48)) 0 s"

definition is_array_index :: "string \<Rightarrow> bool" where
  "is_array_index s =
     (s \<noteq> [] \<and> list_all is_digit s \<and> (hd s = CHR ''0'' \<longrightarrow> s = ''0'')
      \<and> numeric_value s < 4294967295)"

fun insert_index :: "string \<Rightarrow> string \<Rightarrow> ledger \<Rightarrow> ledger" where
  "insert_index k v [] = [(k, v)]"
| "insert_index k v ((k', v') # l) =
     (if is_array_index k' \<and> numeric_value k' < numeric_value k
      then (k', v') # insert_index k v l
      else (k, v) # (k', v') # l)"

definition obj_get :: "ledger \<Rightarrow> string \<Rightarrow> string option" where
  \<comment> \<open>\<^verbatim>\<open>statuses[k]\<close>; \<open>None\<close> is \<^verbatim>\<open>undefined\<close>\<close>
  "obj_get l k = map_of l k"

definition obj_keys :: "ledger \<Rightarrow> string list" where
  \<comment> \<open>\<^verbatim>\<open>Object.keys(statuses)\<close>\<close>
  "obj_keys l = map fst l"

definition obj_set :: "ledger \<Rightarrow> string \<Rightarrow> string \<Rightarrow> ledger" where
  \<comment> \<open>\<^verbatim>\<open>statuses[k] = v\<close>: an existing key keeps its place\<close>
  "obj_set l k v =
     (if k \<in> set (map fst l) then map (\<lambda>(k', v'). if k' = k then (k', v) else (k', v')) l
      else if is_array_index k then insert_index k v l
      else l @ [(k, v)])"

definition obj_delete :: "ledger \<Rightarrow> string \<Rightarrow> ledger" where
  \<comment> \<open>\<^verbatim>\<open>delete statuses[k]\<close>\<close>
  "obj_delete l k = filter (\<lambda>(k', v'). k' \<noteq> k) l"

subsection \<open>The batcher\<close>

definition BATCH_SIZE :: nat where
  "BATCH_SIZE = 10"

definition slice :: "'a list \<Rightarrow> nat \<Rightarrow> nat \<Rightarrow> 'a list" where
  \<comment> \<open>\<^verbatim>\<open>all.slice(a, b)\<close> for \<open>0 \<le> a \<le> b\<close>: it stops at the end of the array\<close>
  "slice xs a b = take (b - a) (drop a xs)"

text \<open>
  \<^verbatim>\<open>split(all, curr, res)\<close>; an argument that is left out (\<^verbatim>\<open>curr == null\<close>) is \<open>None\<close>.
  The callers write \<^verbatim>\<open>split(ids)\<close>, that is \<open>split ids None None\<close>.
\<close>

function split :: "'a list \<Rightarrow> nat option \<Rightarrow> 'a list list option \<Rightarrow> 'a list list" where
  "split all curr_opt res_opt =
     (let cur = (case curr_opt of None \<Rightarrow> 0 | Some c \<Rightarrow> c);
          res = (case res_opt of None \<Rightarrow> [] | Some r \<Rightarrow> r)
      in if cur + BATCH_SIZE > length all \<and> length res = 0 then [all]
         else if cur + BATCH_SIZE > length all then res
         else split all (Some (cur + BATCH_SIZE))
                (Some (res @ [slice all cur (cur + BATCH_SIZE)])))"
  by pat_completeness auto
termination
  by (relation "measure (\<lambda>(all, curr_opt, res_opt).
        Suc (length all) - (case curr_opt of None \<Rightarrow> 0 | Some c \<Rightarrow> c))")
     (auto simp: BATCH_SIZE_def)

declare split.simps [simp del]

subsection \<open>The state and the remote API\<close>

datatype request = ListStreams | Timeseries stream_id | DeleteStream stream_id

record state =
  statuses :: ledger            \<comment> \<open>the shared status object\<close>
  sent :: "request list"        \<comment> \<open>the requests sent to the API so far\<close>
  checkpoint :: "string option" \<comment> \<open>the content of \<^verbatim>\<open>./streams-status.json\<close>, if it exists\<close>

record argv =
  dryRun :: bool

text \<open>
  The world outside the script. \<open>timeseries_api j i id\<close> is the answer to the timeseries
  request for \<open>id\<close>, the \<open>i\<close>-th of batch \<open>j\<close>: the operation counts of the window, or the
  error the request rejects with. \<open>delete_api j i id\<close> is the answer to the delete
  request. \<open>check_order\<close> and \<open>delete_order\<close> list the batch numbers in the order in which
  the batches complete.

  \<open>delete_arrival j i\<close> says when the answer to that delete request arrives. It matters
  for a request that succeeds in a batch where another request fails, since the promise
  of such a batch settles at the first failure: the answer arrives before that failure
  (\<open>InTime\<close>), or later but before the second checkpoint is written, or after that but
  before the report reads the status object, or after the report. In a batch where every
  request succeeds, \<^verbatim>\<open>Promise.all\<close> waits for the last answer, so every answer is in time.
\<close>

datatype arrival = InTime | BeforeCheckpoint | BeforeReport | AfterReport

record env =
  list_api :: "error + stream_id list"
  timeseries_api :: "nat \<Rightarrow> nat \<Rightarrow> stream_id \<Rightarrow> error + int list"
  delete_api :: "nat \<Rightarrow> nat \<Rightarrow> stream_id \<Rightarrow> error + unit"
  delete_arrival :: "nat \<Rightarrow> nat \<Rightarrow> arrival"
  check_order :: "nat list"
  delete_order :: "nat list"

record ret =
  active :: bool
  id' :: stream_id

definition timeseriesRequest :: "(stream_id \<Rightarrow> error + int list) \<Rightarrow> stream_id \<Rightarrow> error + ret" where
  "timeseriesRequest api streamId =
     (case api streamId of
        Inl err \<Rightarrow> Inl err
      | Inr ops_counts \<Rightarrow> Inr \<lparr>active = list_ex (\<lambda>p. p > 0) ops_counts, id' = streamId\<rparr>)"

text \<open>
  \<^verbatim>\<open>Promise.all\<close>: the values in order when every promise resolves, a rejection
  otherwise (here the one of the first rejected promise of the list; the script only
  prints it).
\<close>

fun Promise_all :: "(error + 'a) list \<Rightarrow> error + 'a list" where
  "Promise_all [] = Inr []"
| "Promise_all (p # ps) =
     (case p of
        Inl err \<Rightarrow> Inl err
      | Inr v \<Rightarrow> (case Promise_all ps of Inl err \<Rightarrow> Inl err | Inr vs \<Rightarrow> Inr (v # vs)))"

text \<open>
  \<^verbatim>\<open>Promise.map(batches, worker, {concurrency: 8})\<close>. Each worker changes the status object
  in callbacks that run one at a time, so a run is the workers' effects in the order
  \<open>order\<close> in which the batches complete (a number that names no batch is passed
  over). A worker that rejects rejects the whole map.
\<close>

fun Promise_map ::
  "(nat \<Rightarrow> 'b \<Rightarrow> state \<Rightarrow> (error + unit) \<times> state) \<Rightarrow> 'b list \<Rightarrow> nat list \<Rightarrow> state
     \<Rightarrow> (error + unit) \<times> state" where
  "Promise_map worker batches [] s = (Inr (), s)"
| "Promise_map worker batches (j # order) s =
     (if j < length batches
      then (case worker j (batches ! j) s of
              (Inl err, s') \<Rightarrow> (Inl err, s')
            | (Inr u, s') \<Rightarrow> Promise_map worker batches order s')
      else Promise_map worker batches order s)"

subsection \<open>Classification\<close>

definition filterBatch ::
  "(nat \<Rightarrow> stream_id \<Rightarrow> error + int list) \<Rightarrow> stream_id list \<Rightarrow> state \<Rightarrow> (error + unit) \<times> state" where
  "filterBatch api batch s =
     (let reqs = map (\<lambda>(i, streamId). timeseriesRequest (api i) streamId) (enumerate 0 batch);
          s0 = s\<lparr>sent := sent s @ map Timeseries batch\<rparr>
      in case Promise_all reqs of
           Inr res \<Rightarrow>
             (let filtered = filter (\<lambda>r. \<not> active r) res;
                  st1 = foldl (\<lambda>st r. obj_set st (id' r) ''inactive'') (statuses s0) filtered;
                  actives = filter (\<lambda>r. active r) res;
                  st2 = foldl (\<lambda>st r. obj_delete st (id' r)) st1 actives
              in (Inr (), s0\<lparr>statuses := st2\<rparr>))
         | Inl err \<Rightarrow>
             (Inr (),
              s0\<lparr>statuses :=
                   foldl (\<lambda>st streamId. obj_set st streamId ''unknown'') (statuses s0) batch\<rparr>))"

definition batchCheckStreamStatuses ::
  "env \<Rightarrow> stream_id list \<Rightarrow> state \<Rightarrow> (error + unit) \<times> state" where
  "batchCheckStreamStatuses e ids s =
     (let batches = split ids None None
      in Promise_map (\<lambda>j b. filterBatch (timeseries_api e j) b) batches (check_order e) s)"

subsection \<open>Deletion\<close>

text \<open>
  Each delete request that succeeds sets its own entry when its answer arrives; the
  rejection of \<^verbatim>\<open>Promise.all\<close> is caught. The state returned is the one in which the
  promise of the batch settles: after the last answer when every request succeeds, at the
  first failure otherwise, and then only the successes that arrived in time have set
  their entries.
\<close>

definition deleteBatch ::
  "(nat \<Rightarrow> stream_id \<Rightarrow> error + unit) \<Rightarrow> (nat \<Rightarrow> arrival) \<Rightarrow> stream_id list \<Rightarrow> state
     \<Rightarrow> (error + unit) \<times> state" where
  "deleteBatch api arrives batch s =
     (let answers = map (\<lambda>(i, streamId). api i streamId) (enumerate 0 batch);
          s0 = s\<lparr>sent := sent s @ map DeleteStream batch\<rparr>
      in case Promise_all answers of
           Inr us \<Rightarrow>
             (Inr (),
              s0\<lparr>statuses :=
                   foldl (\<lambda>st streamId. obj_set st streamId ''deleted'') (statuses s0) batch\<rparr>)
         | Inl err \<Rightarrow>
             (Inr (),
              s0\<lparr>statuses :=
                   foldl (\<lambda>st (i, streamId).
                            case api i streamId of
                              Inl err' \<Rightarrow> st
                            | Inr u \<Rightarrow> if arrives i = InTime then obj_set st streamId ''deleted''
                                       else st)
                     (statuses s0) (enumerate 0 batch)\<rparr>))"

text \<open>
  The successes of a batch that are still to arrive when its promise has settled, each
  with the moment of its arrival.
\<close>

definition lateAnswers ::
  "(nat \<Rightarrow> stream_id \<Rightarrow> error + unit) \<Rightarrow> (nat \<Rightarrow> arrival) \<Rightarrow> stream_id list
     \<Rightarrow> (arrival \<times> stream_id) list" where
  "lateAnswers api arrives batch =
     (case Promise_all (map (\<lambda>(i, streamId). api i streamId) (enumerate 0 batch)) of
        Inr us \<Rightarrow> []
      | Inl err \<Rightarrow>
          map (\<lambda>(i, streamId). (arrives i, streamId))
            (filter (\<lambda>(i, streamId). api i streamId = Inr () \<and> arrives i \<noteq> InTime)
               (enumerate 0 batch)))"

definition batchDeleteStreams ::
  "env \<Rightarrow> stream_id list \<Rightarrow> state \<Rightarrow> (error + unit) \<times> state" where
  "batchDeleteStreams e ids s =
     (let batches = split ids None None
      in Promise_map (\<lambda>j b. deleteBatch (delete_api e j) (delete_arrival e j) b)
           batches (delete_order e) s)"

definition outstanding :: "env \<Rightarrow> stream_id list \<Rightarrow> (arrival \<times> stream_id) list" where
  \<comment> \<open>the successes still to arrive when \<open>batchDeleteStreams\<close> has resolved\<close>
  "outstanding e ids =
     (let batches = split ids None None
      in concat (map (\<lambda>j. if j < length batches
                            then lateAnswers (delete_api e j) (delete_arrival e j) (batches ! j)
                            else [])
                   (delete_order e)))"

definition answered :: "arrival list \<Rightarrow> (arrival \<times> stream_id) list \<Rightarrow> state \<Rightarrow> state" where
  \<comment> \<open>the answers that arrive at one of the moments \<open>ms\<close> set their entries\<close>
  "answered ms late s =
     s\<lparr>statuses :=
         foldl (\<lambda>st (a, streamId). if a \<in> set ms then obj_set st streamId ''deleted'' else st)
           (statuses s) late\<rparr>"

definition streamIdsToBeDeleted :: "ledger \<Rightarrow> stream_id list" where
  "streamIdsToBeDeleted streamStatuses =
     filter (\<lambda>i. obj_get streamStatuses i = Some ''inactive'') (obj_keys streamStatuses)"

definition deleteStreams :: "argv \<Rightarrow> env \<Rightarrow> state \<Rightarrow> (error + unit) \<times> state" where
  "deleteStreams args e s =
     (if dryRun args then (Inr (), s)
      else batchDeleteStreams e (streamIdsToBeDeleted (statuses s)) s)"

definition outstandingDeletes :: "argv \<Rightarrow> env \<Rightarrow> ledger \<Rightarrow> (arrival \<times> stream_id) list" where
  \<comment> \<open>the successes still to arrive when \<open>deleteStreams\<close>, called on this status object, has resolved\<close>
  "outstandingDeletes args e streamStatuses =
     (if dryRun args then [] else outstanding e (streamIdsToBeDeleted streamStatuses))"

subsection \<open>The report\<close>

record report_groups =
  unknown :: "stream_id list"
  inactive :: "stream_id list"
  deleted :: "stream_id list"

definition report_step :: "ledger \<Rightarrow> report_groups \<Rightarrow> stream_id \<Rightarrow> report_groups" where
  "report_step sts r streamId =
     (if obj_get sts streamId = Some ''unknown'' then r\<lparr>unknown := unknown r @ [streamId]\<rparr>
      else if obj_get sts streamId = Some ''inactive'' then r\<lparr>inactive := inactive r @ [streamId]\<rparr>
      else if obj_get sts streamId = Some ''deleted'' then r\<lparr>deleted := deleted r @ [streamId]\<rparr>
      else r)"

definition report :: "ledger \<Rightarrow> report_groups" where
  "report sts =
     foldl (report_step sts) \<lparr>unknown = [], inactive = [], deleted = []\<rparr> (obj_keys sts)"

subsection \<open>The checkpoint file\<close>

text \<open>
  \<^verbatim>\<open>JSON.stringify\<close> of an object whose values are strings: the members in the order of
  \<^verbatim>\<open>Object.keys\<close>, no white space, each string quoted with the escapes of the language
  (\<^verbatim>\<open>\"\<close>, \<^verbatim>\<open>\\\<close>, \<^verbatim>\<open>\b\<close>, \<^verbatim>\<open>\t\<close>, \<^verbatim>\<open>\n\<close>, \<^verbatim>\<open>\f\<close>, \<^verbatim>\<open>\r\<close>, and \<^verbatim>\<open>\u00XX\<close> in lower case for
  the other code units below \<open>0x20\<close>).
\<close>

definition hex_digit :: "int \<Rightarrow> char" where
  "hex_digit n = (if n < 10 then char_of (48 + n) else char_of (87 + n))"

definition quote_char :: "char \<Rightarrow> string" where
  "quote_char c =
     (if c = CHR 0x22 then [CHR 0x5C, CHR 0x22]
      else if c = CHR 0x5C then [CHR 0x5C, CHR 0x5C]
      else if c = CHR 0x08 then [CHR 0x5C, CHR ''b'']
      else if c = CHR 0x09 then [CHR 0x5C, CHR ''t'']
      else if c = CHR 0x0A then [CHR 0x5C, CHR ''n'']
      else if c = CHR 0x0C then [CHR 0x5C, CHR ''f'']
      else if c = CHR 0x0D then [CHR 0x5C, CHR ''r'']
      else if (of_char c :: int) < 32
        then [CHR 0x5C, CHR ''u'', CHR ''0'', CHR ''0'',
              hex_digit ((of_char c :: int) div 16), hex_digit ((of_char c :: int) mod 16)]
      else [c])"

definition QuoteJSONString :: "string \<Rightarrow> string" where
  "QuoteJSONString s = CHR 0x22 # concat (map quote_char s) @ [CHR 0x22]"

fun join_comma :: "string list \<Rightarrow> string" where
  "join_comma [] = []"
| "join_comma [m] = m"
| "join_comma (m # ms) = m @ CHR '','' # join_comma ms"

definition JSON_stringify :: "ledger \<Rightarrow> string" where
  "JSON_stringify l =
     CHR ''{'' #
     join_comma (map (\<lambda>(k, v). QuoteJSONString k @ CHR '':'' # QuoteJSONString v) l)
     @ [CHR ''}'']"

text \<open>
  \<^verbatim>\<open>JSON.parse\<close>, for the texts that are one object whose member values are strings of
  code units below 256, with the white space and the escapes JSON allows. \<open>None\<close> is a
  syntax error, or a text outside that fragment. A member is stored as an assignment
  does, so of two members with one key the later value stays.
\<close>

definition hex_value :: "char \<Rightarrow> int option" where
  "hex_value c =
     (let n = (of_char c :: int)
      in if 48 \<le> n \<and> n \<le> 57 then Some (n - 48)
         else if 97 \<le> n \<and> n \<le> 102 then Some (n - 87)
         else if 65 \<le> n \<and> n \<le> 70 then Some (n - 55)
         else None)"

definition unescape :: "char \<Rightarrow> char option" where
  "unescape c =
     (if c = CHR 0x22 then Some (CHR 0x22)
      else if c = CHR 0x5C then Some (CHR 0x5C)
      else if c = CHR ''/'' then Some (CHR ''/'')
      else if c = CHR ''b'' then Some (CHR 0x08)
      else if c = CHR ''t'' then Some (CHR 0x09)
      else if c = CHR ''n'' then Some (CHR 0x0A)
      else if c = CHR ''f'' then Some (CHR 0x0C)
      else if c = CHR ''r'' then Some (CHR 0x0D)
      else None)"

definition is_ws :: "char \<Rightarrow> bool" where
  "is_ws c = (c = CHR 0x20 \<or> c = CHR 0x09 \<or> c = CHR 0x0A \<or> c = CHR 0x0D)"

fun skip_ws :: "string \<Rightarrow> string" where
  "skip_ws [] = []"
| "skip_ws (c # cs) = (if is_ws c then skip_ws cs else c # cs)"

text \<open>The characters of a string after its opening quote, and what follows the closing one.\<close>

fun parse_chars :: "string \<Rightarrow> string \<Rightarrow> (string \<times> string) option" where
  "parse_chars acc [] = None"
| "parse_chars acc (c # cs) =
     (if c = CHR 0x22 then Some (acc, cs)
      else if c = CHR 0x5C then
        (case cs of
           [] \<Rightarrow> None
         | e # cs' \<Rightarrow>
             if e = CHR ''u'' then
               (case cs' of
                  h1 # h2 # h3 # h4 # cs'' \<Rightarrow>
                    if hex_value h1 = Some 0 \<and> hex_value h2 = Some 0
                       \<and> hex_value h3 \<noteq> None \<and> hex_value h4 \<noteq> None
                    then parse_chars
                           (acc @ [char_of (16 * the (hex_value h3) + the (hex_value h4))]) cs''
                    else None
                | _ \<Rightarrow> None)
             else (case unescape e of
                     None \<Rightarrow> None
                   | Some d \<Rightarrow> parse_chars (acc @ [d]) cs'))
      else if (of_char c :: int) < 32 then None
      else parse_chars (acc @ [c]) cs)"

definition parse_string :: "string \<Rightarrow> (string \<times> string) option" where
  "parse_string s = (case s of [] \<Rightarrow> None | c # cs \<Rightarrow> if c = CHR 0x22 then parse_chars [] cs else None)"

text \<open>One member \<^verbatim>\<open>"key" : "value"\<close> with the white space around it, and the rest.\<close>

definition parse_member :: "string \<Rightarrow> ((string \<times> string) \<times> string) option" where
  "parse_member s =
     (case parse_string (skip_ws s) of
        None \<Rightarrow> None
      | Some (k, s1) \<Rightarrow>
          (case skip_ws s1 of
             [] \<Rightarrow> None
           | c # s2 \<Rightarrow>
               if c = CHR '':'' then
                 (case parse_string (skip_ws s2) of
                    None \<Rightarrow> None
                  | Some (v, s3) \<Rightarrow> Some ((k, v), skip_ws s3))
               else None))"

lemma parse_chars_shorter:
  "parse_chars acc s = Some (r, rest) \<Longrightarrow> length rest < length s"
proof (induction acc s arbitrary: r rest rule: parse_chars.induct)
  case (1 acc)
  then show ?case by simp
next
  case (2 acc c cs)
  show ?case
  proof (cases "c = CHR 0x22")
    case True
    with "2.prems" show ?thesis by simp
  next
    case quote: False
    show ?thesis
    proof (cases "c = CHR 0x5C")
      case False
      with quote "2.prems" "2.IH"(3)[of r rest] show ?thesis
        by (auto split: if_splits)
    next
      case True
      show ?thesis
      proof (cases cs)
        case Nil
        with quote True "2.prems" show ?thesis by simp
      next
        case (Cons e cs')
        show ?thesis
        proof (cases "e = CHR ''u''")
          case False
          then obtain d where d: "unescape e = Some d"
              and p: "parse_chars (acc @ [d]) cs' = Some (r, rest)"
            using quote True Cons "2.prems" by (auto split: option.splits)
          from "2.IH"(2)[OF quote True Cons False d p] Cons show ?thesis by simp
        next
          case u: True
          then obtain h1 h2 h3 h4 cs'' where
            cs': "cs' = h1 # h2 # h3 # h4 # cs''" and
            h: "hex_value h1 = Some 0 \<and> hex_value h2 = Some 0
                \<and> hex_value h3 \<noteq> None \<and> hex_value h4 \<noteq> None" and
            p: "parse_chars (acc @ [char_of (16 * the (hex_value h3) + the (hex_value h4))]) cs''
                = Some (r, rest)"
            using quote True Cons "2.prems"
            by (auto split: list.splits if_splits)
          have "length rest < length cs''"
            by (rule "2.IH"(1)[OF quote True Cons u cs' refl refl refl h p])
          with Cons cs' show ?thesis by simp
        qed
      qed
    qed
  qed
qed

lemma skip_ws_shorter: "length (skip_ws s) \<le> length s"
  by (induction s) auto

lemma parse_member_shorter:
  assumes "parse_member s = Some (kv, rest)"
  shows "length rest < length s"
proof -
  from assms obtain k s1 c s2 v s3 where
    k: "parse_string (skip_ws s) = Some (k, s1)" and
    c: "skip_ws s1 = c # s2" and
    v: "parse_string (skip_ws s2) = Some (v, s3)" and
    r: "rest = skip_ws s3"
    by (auto simp: parse_member_def split: option.splits list.splits if_splits)
  from k have "length s1 < length (skip_ws s)"
    by (auto simp: parse_string_def split: list.splits if_splits dest: parse_chars_shorter)
  moreover from v have "length s3 < length (skip_ws s2)"
    by (auto simp: parse_string_def split: list.splits if_splits dest: parse_chars_shorter)
  moreover have "length s2 < length s1"
    using skip_ws_shorter[of s1] c by simp
  ultimately show ?thesis
    using skip_ws_shorter[of s] skip_ws_shorter[of s2] skip_ws_shorter[of s3] r by simp
qed

function parse_members :: "ledger \<Rightarrow> string \<Rightarrow> ledger option" where
  "parse_members obj s =
     (case parse_member s of
        None \<Rightarrow> None
      | Some ((k, v), rest) \<Rightarrow>
          (case rest of
             [] \<Rightarrow> None
           | c # rest' \<Rightarrow>
               if c = CHR '','' then parse_members (obj_set obj k v) rest'
               else if c = CHR ''}'' then
                 (if skip_ws rest' = [] then Some (obj_set obj k v) else None)
               else None))"
  by pat_completeness auto
termination
  by (relation "measure (\<lambda>(obj, s). length s)") (auto dest: parse_member_shorter)

declare parse_members.simps [simp del]

definition JSON_parse :: "string \<Rightarrow> ledger option" where
  "JSON_parse text =
     (case skip_ws text of
        [] \<Rightarrow> None
      | c # s \<Rightarrow>
          if c = CHR ''{'' then
            (case skip_ws s of
               [] \<Rightarrow> None
             | c' # s' \<Rightarrow>
                 if c' = CHR ''}'' then (if skip_ws s' = [] then Some [] else None)
                 else parse_members [] s)
          else None)"

text \<open>
  \<^verbatim>\<open>fs.writeFile\<close> replaces the content of the file; \<^verbatim>\<open>fs.readFile\<close> gives it back, or
  fails when there is no file. Writing is taken to succeed.
\<close>

definition storeStreamStatus :: "state \<Rightarrow> (error + unit) \<times> state" where
  "storeStreamStatus s = (Inr (), s\<lparr>checkpoint := Some (JSON_stringify (statuses s))\<rparr>)"

definition getStreamStatus :: "state \<Rightarrow> (error + unit) \<times> state" where
  \<comment> \<open>the object read becomes the status object of the run\<close>
  "getStreamStatus s =
     (case checkpoint s of
        None \<Rightarrow> (Inl ENOENT, s)
      | Some text \<Rightarrow>
          (case JSON_parse text of
             None \<Rightarrow> (Inl SyntaxError, s)
           | Some obj \<Rightarrow> (Inr (), s\<lparr>statuses := obj\<rparr>)))"

subsection \<open>The two runs\<close>

text \<open>
  A chain of \<^verbatim>\<open>.then\<close>: the next stage runs when the promise resolves, and a rejection
  skips the remaining stages. The \<^verbatim>\<open>.catch\<close> that ends \<open>start\<close> and \<open>resume\<close> prints the
  error; their result \<open>Inl err\<close> stands for that, \<open>Inr r\<close> for the report \<open>r\<close> printed.
  The second checkpoint is written from the status object with the answers that arrived
  before it, and the report reads the status object with those that arrived before the
  report; the state returned is the one the report read.
\<close>

definition then_do ::
  "(error + 'a) \<times> state \<Rightarrow> ('a \<Rightarrow> state \<Rightarrow> (error + 'b) \<times> state) \<Rightarrow> (error + 'b) \<times> state" where
  "then_do p f = (case p of (Inl err, s) \<Rightarrow> (Inl err, s) | (Inr v, s) \<Rightarrow> f v s)"

definition streamIdsToBeChecked :: "ledger \<Rightarrow> stream_id list" where
  "streamIdsToBeChecked streamStatuses =
     filter (\<lambda>i. obj_get streamStatuses i = Some ''unknown'') (obj_keys streamStatuses)"

definition listStreamsRequest :: "env \<Rightarrow> state \<Rightarrow> (error + stream_id list) \<times> state" where
  \<comment> \<open>the identifiers left by the exclusion and service filters, or the error of the request\<close>
  "listStreamsRequest e s = (list_api e, s\<lparr>sent := sent s @ [ListStreams]\<rparr>)"

definition start :: "argv \<Rightarrow> env \<Rightarrow> state \<Rightarrow> (error + report_groups) \<times> state" where
  "start args e s =
     then_do (listStreamsRequest e s) (\<lambda>ids s.
     then_do (batchCheckStreamStatuses e ids (s\<lparr>statuses := []\<rparr>)) (\<lambda>u s.
     then_do (storeStreamStatus s) (\<lambda>u s3.
     then_do (deleteStreams args e s3) (\<lambda>u s4.
     let late = outstandingDeletes args e (statuses s3) in
     then_do (storeStreamStatus (answered [BeforeCheckpoint] late s4)) (\<lambda>u s5.
     let s6 = answered [BeforeReport] late s5 in
     (Inr (report (statuses s6)), s6))))))"

definition resume :: "argv \<Rightarrow> env \<Rightarrow> state \<Rightarrow> (error + report_groups) \<times> state" where
  "resume args e s =
     then_do (getStreamStatus s) (\<lambda>u s.
     then_do (batchCheckStreamStatuses e (streamIdsToBeChecked (statuses s)) s) (\<lambda>u s.
     then_do (storeStreamStatus s) (\<lambda>u s3.
     then_do (deleteStreams args e s3) (\<lambda>u s4.
     let late = outstandingDeletes args e (statuses s3) in
     then_do (storeStreamStatus (answered [BeforeCheckpoint] late s4)) (\<lambda>u s5.
     let s6 = answered [BeforeReport] late s5 in
     (Inr (report (statuses s6)), s6))))))"

subsection \<open>Example runs\<close>

definition twenty_ids :: "stream_id list" where
  "twenty_ids = [''a'', ''b'', ''c'', ''d'', ''e'', ''f'', ''g'', ''h'', ''i'', ''j'',
                 ''k'', ''l'', ''m'', ''n'', ''o'', ''p'', ''q'', ''r'', ''s'', ''t'']"

definition rate_limited_env :: env where
  "rate_limited_env =
     \<lparr>list_api = Inr twenty_ids,
      timeseries_api = (\<lambda>j i k. if j = 0 \<and> i = 3 then Inl (StatusCodeError 429)
                                 else if k = ''m'' then Inr [0, 7] else Inr [0, 0]),
      delete_api = (\<lambda>j i k. if k = ''q'' then Inl (StatusCodeError 500) else Inr ()),
      delete_arrival = (\<lambda>j i. if j = 1 \<and> i = 5 then BeforeReport
                             else if j = 1 \<and> i = 7 then AfterReport else InTime),
      check_order = [1, 0],
      delete_order = [1, 0]\<rparr>"

definition empty_state :: state where
  "empty_state = \<lparr>statuses = [], sent = [], checkpoint = None\<rparr>"

definition inactive_state :: state where
  "inactive_state =
     \<lparr>statuses = map (\<lambda>k. (k, ''inactive'')) twenty_ids, sent = [], checkpoint = None\<rparr>"

definition abc_ledger :: ledger where
  "abc_ledger = [(''A'', ''unknown''), (''B'', ''inactive''), (''C'', ''deleted''),
                 (''E'', ''archived'')]"

definition abc_state :: state where
  "abc_state = \<lparr>statuses = abc_ledger, sent = [], checkpoint = Some (JSON_stringify abc_ledger)\<rparr>"

definition quiet_env :: env where
  "quiet_env =
     \<lparr>list_api = Inr [],
      timeseries_api = (\<lambda>j i k. Inr [0, 0]),
      delete_api = (\<lambda>j i k. Inr ()),
      delete_arrival = (\<lambda>j i. InTime),
      check_order = [0],
      delete_order = [0]\<rparr>"

definition eleven_ids :: "stream_id list" where
  "eleven_ids = [''a'', ''b'', ''c'', ''d'', ''e'', ''f'', ''g'', ''h'', ''i'', ''j'', ''k'']"

definition eleven_unknown :: state where
  "eleven_unknown =
     \<lparr>statuses = [], sent = [],
      checkpoint = Some (JSON_stringify (map (\<lambda>k. (k, ''unknown'')) eleven_ids))\<rparr>"

definition eleven_inactive :: state where
  "eleven_inactive =
     \<lparr>statuses = [], sent = [],
      checkpoint = Some (JSON_stringify (map (\<lambda>k. (k, ''inactive'')) eleven_ids))\<rparr>"

definition pqr_state :: state where
  "pqr_state =
     \<lparr>statuses = [], sent = [],
      checkpoint = Some (JSON_stringify
                     [(''p'', ''inactive''), (''q'', ''inactive''), (''r'', ''inactive'')])\<rparr>"

definition late_env :: env where
  "late_env =
     \<lparr>list_api = Inr [],
      timeseries_api = (\<lambda>j i k. Inr [0, 0]),
      delete_api = (\<lambda>j i k. if k = ''q'' then Inl (StatusCodeError 500) else Inr ()),
      delete_arrival = (\<lambda>j i. if i = 0 then BeforeReport else AfterReport),
      check_order = [0],
      delete_order = [0]\<rparr>"

section \<open>Properties\<close>

subsection \<open>The batcher\<close>

text \<open>
  What \<open>split\<close> returns, in general: the whole input as one batch when it is shorter than
  a batch, and otherwise the full batches only, so that the concatenation is the longest
  prefix whose length is a multiple of the batch size.
\<close>

lemma split_concat_inv:
  "concat (case res_opt of None \<Rightarrow> [] | Some r \<Rightarrow> r) = take (case curr_opt of None \<Rightarrow> 0 | Some c \<Rightarrow> c) all
   \<Longrightarrow> (case curr_opt of None \<Rightarrow> 0 | Some c \<Rightarrow> c) \<le> length all
   \<Longrightarrow> (case curr_opt of None \<Rightarrow> 0 | Some c \<Rightarrow> c) mod 10 = 0
   \<Longrightarrow> ((case res_opt of None \<Rightarrow> [] | Some r \<Rightarrow> r) = [] \<longleftrightarrow> (case curr_opt of None \<Rightarrow> 0 | Some c \<Rightarrow> c) = 0)
   \<Longrightarrow> concat (split all curr_opt res_opt) =
       (if length all < 10 then all else take (10 * (length all div 10)) all)"
proof (induction all curr_opt res_opt rule: split.induct)
  case (1 all curr_opt res_opt)
  define cur where "cur = (case curr_opt of None \<Rightarrow> 0 | Some c \<Rightarrow> c)"
  define res where "res = (case res_opt of None \<Rightarrow> [] | Some r \<Rightarrow> r)"
  note prems = "1.prems"[folded cur_def res_def]
  show ?case
  proof (cases "cur + BATCH_SIZE > length all")
    case True
    show ?thesis
    proof (cases "res = []")
      case True
      with prems \<open>cur + BATCH_SIZE > length all\<close> have "length all < 10" "split all curr_opt res_opt = [all]"
        by (simp_all add: split.simps[of all curr_opt res_opt] cur_def[symmetric] res_def[symmetric] BATCH_SIZE_def)
      then show ?thesis by simp
    next
      case False
      with prems have c: "cur \<noteq> 0" by simp
      from False True have s: "split all curr_opt res_opt = res"
        by (simp add: split.simps[of all curr_opt res_opt] cur_def[symmetric] res_def[symmetric])
      from c prems True have "cur = 10 * (length all div 10)" "10 \<le> length all"
        by (auto simp: BATCH_SIZE_def)
      with s prems show ?thesis by simp
    qed
  next
    case False
    then have s: "split all curr_opt res_opt =
        split all (Some (cur + BATCH_SIZE)) (Some (res @ [slice all cur (cur + BATCH_SIZE)]))"
      by (simp add: split.simps[of all curr_opt res_opt] cur_def[symmetric] res_def[symmetric])
    have "concat (split all (Some (cur + BATCH_SIZE)) (Some (res @ [slice all cur (cur + BATCH_SIZE)]))) =
       (if length all < 10 then all else take (10 * (length all div 10)) all)"
    proof (rule "1.IH"[OF cur_def res_def])
      show "\<not> (length all < cur + BATCH_SIZE \<and> length res = 0)" using False by simp
      show "\<not> length all < cur + BATCH_SIZE" using False by simp
      show "concat (case Some (res @ [slice all cur (cur + BATCH_SIZE)]) of None \<Rightarrow> [] | Some r \<Rightarrow> r) =
            take (case Some (cur + BATCH_SIZE) of None \<Rightarrow> 0 | Some c \<Rightarrow> c) all"
        using prems by (simp add: slice_def take_add)
      show "(case Some (cur + BATCH_SIZE) of None \<Rightarrow> 0 | Some c \<Rightarrow> c) \<le> length all"
        using False by simp
      show "(case Some (cur + BATCH_SIZE) of None \<Rightarrow> 0 | Some c \<Rightarrow> c) mod 10 = 0"
        using prems by (simp add: BATCH_SIZE_def)
      show "((case Some (res @ [slice all cur (cur + BATCH_SIZE)]) of None \<Rightarrow> [] | Some r \<Rightarrow> r) = []) =
            ((case Some (cur + BATCH_SIZE) of None \<Rightarrow> 0 | Some c \<Rightarrow> c) = 0)"
        by (simp add: BATCH_SIZE_def)
    qed
    with s show ?thesis by simp
  qed
qed

lemma concat_split:
  "concat (split all None None) = (if length all < 10 then all else take (10 * (length all div 10)) all)"
  by (rule split_concat_inv) simp_all

lemma split_small: "length all \<le> 10 \<Longrightarrow> split all None None = [all]"
  by (cases "length all = 10")
     (simp_all add: split.simps[of all None None] split.simps[of all "Some 10"] BATCH_SIZE_def slice_def)

text \<open>
  C1 (batching completeness). On a non-empty input whose length is above the batch size
  and not a multiple of it, the batches do not cover the input: of eleven identifiers the
  eleventh is in no batch. (Inputs of at most ten identifiers do give one batch with all
  of them, see \<open>split_small\<close>.)
\<close>

theorem split_drops_remainder:
  "concat (split [''a'', ''b'', ''c'', ''d'', ''e'', ''f'', ''g'', ''h'', ''i'', ''j'', ''k''] None None)
     = [''a'', ''b'', ''c'', ''d'', ''e'', ''f'', ''g'', ''h'', ''i'', ''j'']
   \<and> concat (split [''a'', ''b'', ''c'', ''d'', ''e'', ''f'', ''g'', ''h'', ''i'', ''j'', ''k''] None None)
     \<noteq> [''a'', ''b'', ''c'', ''d'', ''e'', ''f'', ''g'', ''h'', ''i'', ''j'', ''k'']"
  by code_simp

text \<open>
  C2 (empty input), as stated: \<open>split\<close> of the empty sequence is the empty sequence of
  batches. It is not: the first test of \<open>split\<close> returns the input as one batch.
\<close>

theorem split_empty_not_no_batches:
  "split ([] :: stream_id list) None None \<noteq> []"
  by (simp add: split.simps[of "[]"] BATCH_SIZE_def)

text \<open>
  C2, amended: for the empty input sequence \<open>split\<close> returns exactly one batch, and that
  batch has zero elements.
\<close>

theorem split_empty_one_empty_batch:
  "split ([] :: stream_id list) None None = [[]]"
  by (simp add: split.simps[of "[]"] BATCH_SIZE_def)

subsection \<open>The status object\<close>

lemma map_of_insert_index:
  "k \<notin> fst ` set l \<Longrightarrow> map_of (insert_index k v l) = (map_of l)(k \<mapsto> v)"
  by (induction l) (auto simp: fun_upd_twist)

lemma map_of_replace:
  "map_of (map (\<lambda>(k', v'). if k' = k then (k', v) else (k', v')) l) k' =
     (if k' = k then (if k \<in> fst ` set l then Some v else None) else map_of l k')"
  by (induction l) force+

lemma obj_get_set:
  "obj_get (obj_set l k v) k' = (if k' = k then Some v else obj_get l k')"
proof (cases "k \<in> fst ` set l")
  case True
  then show ?thesis by (simp add: obj_get_def obj_set_def map_of_replace)
next
  case False
  then have "map_of l k = None" by (simp add: map_of_eq_None_iff)
  with False show ?thesis
    by (auto simp: obj_get_def obj_set_def map_of_insert_index map_add_def split: option.splits)
qed

lemma obj_get_delete:
  "obj_get (obj_delete l k) k' = (if k' = k then None else obj_get l k')"
  by (induction l) (auto simp: obj_get_def obj_delete_def)

lemma obj_get_foldl_set:
  "obj_get (foldl (\<lambda>st x. obj_set st (f x) v) st xs) k =
     (if k \<in> f ` set xs then Some v else obj_get st k)"
  by (induction xs arbitrary: st) (auto simp: obj_get_set)

lemma obj_get_foldl_delete:
  "obj_get (foldl (\<lambda>st x. obj_delete st (f x)) st xs) k =
     (if k \<in> f ` set xs then None else obj_get st k)"
  by (induction xs arbitrary: st) (auto simp: obj_get_delete)

lemma Promise_all_map_Inr: "Promise_all (map Inr vs) = Inr vs"
  by (induction vs) auto

lemma Promise_all_Inr: "Promise_all ps = Inr vs \<longleftrightarrow> ps = map Inr vs"
proof
  show "Promise_all ps = Inr vs \<Longrightarrow> ps = map Inr vs"
    by (induction ps arbitrary: vs) (auto split: sum.splits)
qed (simp add: Promise_all_map_Inr)

lemma Promise_all_Inl: "(\<exists>err. Promise_all ps = Inl err) \<longleftrightarrow> (\<exists>p \<in> set ps. isl p)"
  by (induction ps) (auto split: sum.splits)

subsection \<open>Classification of one batch\<close>

lemma in_set_enumerate0: "(i, x) \<in> set (enumerate 0 xs) \<longleftrightarrow> i < length xs \<and> xs ! i = x"
  by (auto simp: in_set_enumerate_eq)

lemma image_filter_enumerate:
  "k \<in> f ` set (filter Q (map (\<lambda>(i, x). g i x) (enumerate 0 batch)))
     \<longleftrightarrow> (\<exists>i<length batch. Q (g i (batch ! i)) \<and> f (g i (batch ! i)) = k)"
proof
  assume "k \<in> f ` set (filter Q (map (\<lambda>(i, x). g i x) (enumerate 0 batch)))"
  then obtain i x where "(i, x) \<in> set (enumerate 0 batch)" "Q (g i x)" "k = f (g i x)"
    by auto
  then show "\<exists>i<length batch. Q (g i (batch ! i)) \<and> f (g i (batch ! i)) = k"
    by (auto simp: in_set_enumerate0)
next
  assume "\<exists>i<length batch. Q (g i (batch ! i)) \<and> f (g i (batch ! i)) = k"
  then obtain i where i: "i < length batch" "Q (g i (batch ! i))" "f (g i (batch ! i)) = k"
    by blast
  then have "(i, batch ! i) \<in> set (enumerate 0 batch)"
    by (simp add: in_set_enumerate0)
  then have "g i (batch ! i) \<in> set (filter Q (map (\<lambda>(i, x). g i x) (enumerate 0 batch)))"
    using i(2) by force
  then show "k \<in> f ` set (filter Q (map (\<lambda>(i, x). g i x) (enumerate 0 batch)))"
    using i(3) by blast
qed

lemma requests_all_succeed:
  assumes "\<forall>i<length batch. \<not> isl (api i (batch ! i))"
  shows "Promise_all (map (\<lambda>(i, streamId). timeseriesRequest (api i) streamId) (enumerate 0 batch))
         = Inr (map (\<lambda>(i, streamId).
                  \<lparr>active = list_ex (\<lambda>p. p > 0) (projr (api i streamId)), id' = streamId\<rparr>)
                (enumerate 0 batch))"
proof -
  have "map (\<lambda>(i, streamId). timeseriesRequest (api i) streamId) (enumerate 0 batch)
        = map Inr (map (\<lambda>(i, streamId).
                  \<lparr>active = list_ex (\<lambda>p. p > 0) (projr (api i streamId)), id' = streamId\<rparr>)
                (enumerate 0 batch))"
    using assms
    by (fastforce simp: in_set_enumerate0 timeseriesRequest_def split: sum.splits)
  then show ?thesis by (simp only: Promise_all_map_Inr)
qed

lemma requests_one_fails:
  assumes "i < length batch" and "isl (api i (batch ! i))"
  shows "\<exists>err. Promise_all (map (\<lambda>(i, streamId). timeseriesRequest (api i) streamId)
                              (enumerate 0 batch)) = Inl err"
proof -
  have "(i, batch ! i) \<in> set (enumerate 0 batch)"
    using assms by (simp add: in_set_enumerate0)
  moreover have "isl (timeseriesRequest (api i) (batch ! i))"
    using assms by (auto simp: timeseriesRequest_def split: sum.splits)
  ultimately show ?thesis
    unfolding Promise_all_Inl by force
qed

lemma filterBatch_resolves: "fst (filterBatch api batch s) = Inr ()"
  by (simp add: filterBatch_def Let_def split: sum.splits)

lemma filterBatch_sent:
  "sent (snd (filterBatch api batch s)) = sent s @ map Timeseries batch"
  by (simp add: filterBatch_def Let_def split: sum.splits)

lemma filterBatch_checkpoint:
  "checkpoint (snd (filterBatch api batch s)) = checkpoint s"
  by (simp add: filterBatch_def Let_def split: sum.splits)

lemma filterBatch_failure:
  assumes "i < length batch" and "isl (api i (batch ! i))"
  shows "obj_get (statuses (snd (filterBatch api batch s))) k =
           (if k \<in> set batch then Some ''unknown'' else obj_get (statuses s) k)"
proof -
  from requests_one_fails[of i batch api, OF assms] obtain err where
    "Promise_all (map (\<lambda>(i, streamId). timeseriesRequest (api i) streamId) (enumerate 0 batch))
       = Inl err" ..
  then show ?thesis
    using obj_get_foldl_set[of "\<lambda>x. x" "''unknown''" "statuses s" batch k]
    by (simp add: filterBatch_def Let_def)
qed

lemma filterBatch_success:
  assumes "\<forall>i<length batch. \<not> isl (api i (batch ! i))"
  shows "obj_get (statuses (snd (filterBatch api batch s))) k =
           (if \<exists>i<length batch. batch ! i = k \<and> list_ex (\<lambda>p. p > 0) (projr (api i k)) then None
            else if k \<in> set batch then Some ''inactive''
            else obj_get (statuses s) k)"
proof -
  let ?res = "map (\<lambda>(i, streamId).
                  \<lparr>active = list_ex (\<lambda>p. p > 0) (projr (api i streamId)), id' = streamId\<rparr>)
                (enumerate 0 batch)"
  have a: "k \<in> id' ` set (filter (\<lambda>r. active r) ?res)
           \<longleftrightarrow> (\<exists>i<length batch. batch ! i = k \<and> list_ex (\<lambda>p. p > 0) (projr (api i k)))"
    by (subst image_filter_enumerate) auto
  have b: "k \<in> id' ` set (filter (\<lambda>r. \<not> active r) ?res)
           \<longleftrightarrow> (\<exists>i<length batch. batch ! i = k \<and> \<not> list_ex (\<lambda>p. p > 0) (projr (api i k)))"
    by (subst image_filter_enumerate) auto
  have c: "k \<in> set batch \<longleftrightarrow> (\<exists>i<length batch. batch ! i = k)"
    by (auto simp: in_set_conv_nth)
  have "statuses (snd (filterBatch api batch s)) =
          foldl (\<lambda>st r. obj_delete st (id' r))
            (foldl (\<lambda>st r. obj_set st (id' r) ''inactive'') (statuses s)
               (filter (\<lambda>r. \<not> active r) ?res))
            (filter (\<lambda>r. active r) ?res)"
    by (simp add: filterBatch_def Let_def requests_all_succeed[of batch api, OF assms])
  then show ?thesis
    unfolding c by (simp only: obj_get_foldl_delete obj_get_foldl_set a b) auto
qed

lemma filterBatch_frame:
  "k \<notin> set batch \<Longrightarrow> obj_get (statuses (snd (filterBatch api batch s))) k = obj_get (statuses s) k"
proof (cases "\<forall>i<length batch. \<not> isl (api i (batch ! i))")
  case True
  assume "k \<notin> set batch"
  then show ?thesis
    using filterBatch_success[of batch api s k, OF True] by (auto simp: in_set_conv_nth)
next
  case False
  assume "k \<notin> set batch"
  with False show ?thesis
    by (auto simp: filterBatch_failure)
qed

lemma filterBatch_determined:
  "k \<in> set batch \<Longrightarrow>
   obj_get (statuses (snd (filterBatch api batch s))) k =
   obj_get (statuses (snd (filterBatch api batch s'))) k"
proof (cases "\<forall>i<length batch. \<not> isl (api i (batch ! i))")
  case True
  assume "k \<in> set batch"
  then show ?thesis
    by (auto simp: filterBatch_success[of batch api, OF True])
next
  case False
  assume "k \<in> set batch"
  with False show ?thesis
    by (auto simp: filterBatch_failure)
qed

subsection \<open>Batches that complete in any order\<close>

lemma Promise_map_resolves:
  assumes "\<And>j b s. fst (w j b s) = Inr ()"
  shows "fst (Promise_map w bs order s) = Inr ()"
proof (induction order arbitrary: s)
  case Nil
  show ?case by simp
next
  case (Cons j order)
  obtain r s' where ws: "w j (bs ! j) s = (r, s')" by (cases "w j (bs ! j) s")
  with assms[of j "bs ! j" s] have "r = Inr ()" by simp
  with ws Cons show ?case by simp
qed

lemma Promise_map_invariant:
  assumes "P s"
      and "\<And>j s. j \<in> set order \<Longrightarrow> j < length bs \<Longrightarrow> P s \<Longrightarrow> P (snd (w j (bs ! j) s))"
  shows "P (snd (Promise_map w bs order s))"
  using assms
proof (induction order arbitrary: s)
  case Nil
  then show ?case by simp
next
  case (Cons j order)
  show ?case
  proof (cases "j < length bs")
    case False
    with Cons show ?thesis by simp
  next
    case True
    obtain r s' where ws: "w j (bs ! j) s = (r, s')" by (cases "w j (bs ! j) s")
    have P': "P s'" using Cons.prems(2)[of j s] Cons.prems(1) True ws by simp
    show ?thesis
    proof (cases r)
      case (Inl err)
      with ws True P' show ?thesis by simp
    next
      case (Inr u)
      have "P (snd (Promise_map w bs order s'))"
        by (rule Cons.IH[OF P']) (simp add: Cons.prems(2))
      with ws True Inr show ?thesis by simp
    qed
  qed
qed

lemma Promise_map_append:
  assumes "\<And>j b s. fst (w j b s) = Inr ()"
  shows "snd (Promise_map w bs (xs @ ys) s) = snd (Promise_map w bs ys (snd (Promise_map w bs xs s)))"
proof (induction xs arbitrary: s)
  case Nil
  show ?case by simp
next
  case (Cons j xs)
  obtain r s' where ws: "w j (bs ! j) s = (r, s')" by (cases "w j (bs ! j) s")
  with assms[of j "bs ! j" s] have "r = Inr ()" by simp
  with ws Cons show ?case by simp
qed

lemma Promise_map_once:
  assumes res: "\<And>j b s. fst (w j b s) = Inr ()"
      and j0: "j0 < length bs"
      and ord: "order = pre @ j0 # post"
  shows "snd (Promise_map w bs order s) =
         snd (Promise_map w bs post (snd (w j0 (bs ! j0) (snd (Promise_map w bs pre s)))))"
proof -
  obtain r s' where ws: "w j0 (bs ! j0) (snd (Promise_map w bs pre s)) = (r, s')"
    by (cases "w j0 (bs ! j0) (snd (Promise_map w bs pre s))")
  with res[of j0 "bs ! j0" "snd (Promise_map w bs pre s)"] have "r = Inr ()" by simp
  with ws j0 show ?thesis
    unfolding ord by (simp add: Promise_map_append[of w, OF res])
qed

lemma Promise_map_determined:
  assumes res: "\<And>j b s. fst (w j b s) = Inr ()"
      and j0: "j0 < length bs" "j0 \<in> set order" "distinct order"
      and frame: "\<And>j s. j < length bs \<Longrightarrow> j \<noteq> j0 \<Longrightarrow>
                    obj_get (statuses (snd (w j (bs ! j) s))) k = obj_get (statuses s) k"
      and det: "\<And>s s'. obj_get (statuses (snd (w j0 (bs ! j0) s))) k =
                          obj_get (statuses (snd (w j0 (bs ! j0) s'))) k"
  shows "obj_get (statuses (snd (Promise_map w bs order s))) k =
         obj_get (statuses (snd (w j0 (bs ! j0) s))) k"
proof -
  from j0(2) obtain pre post where ord: "order = pre @ j0 # post"
    by (auto simp: in_set_conv_decomp)
  with j0(3) have notin: "j0 \<notin> set pre" "j0 \<notin> set post" by auto
  let ?s1 = "snd (Promise_map w bs pre s)"
  let ?s2 = "snd (w j0 (bs ! j0) ?s1)"
  have "obj_get (statuses (snd (Promise_map w bs post ?s2))) k = obj_get (statuses ?s2) k"
  proof (rule Promise_map_invariant[where P = "\<lambda>t. obj_get (statuses t) k = obj_get (statuses ?s2) k"])
    show "obj_get (statuses ?s2) k = obj_get (statuses ?s2) k" ..
  next
    fix j and t :: state
    assume "j \<in> set post" "j < length bs" "obj_get (statuses t) k = obj_get (statuses ?s2) k"
    moreover from this notin have "j \<noteq> j0" by auto
    ultimately show "obj_get (statuses (snd (w j (bs ! j) t))) k = obj_get (statuses ?s2) k"
      using frame[of j t] by simp
  qed
  also have "\<dots> = obj_get (statuses (snd (w j0 (bs ! j0) s))) k"
    by (rule det)
  finally show ?thesis
    by (simp add: Promise_map_once[of w, OF res j0(1) ord])
qed

lemma batches_disjoint:
  "distinct (concat bs) \<Longrightarrow> i < j \<Longrightarrow> j < length bs \<Longrightarrow> set (bs ! i) \<inter> set (bs ! j) = {}"
proof (induction bs arbitrary: i j)
  case Nil
  then show ?case by simp
next
  case (Cons b bs)
  show ?case
  proof (cases i)
    case 0
    with Cons.prems obtain j' where j': "j = Suc j'" "j' < length bs"
      by (cases j) auto
    then have "bs ! j' \<in> set bs" by simp
    then have "set (bs ! j') \<subseteq> set (concat bs)" by auto
    with Cons.prems(1) 0 j' show ?thesis by auto
  next
    case (Suc i')
    with Cons.prems obtain j' where "j = Suc j'" "i' < j'" "j' < length bs"
      by (cases j) auto
    with Cons.IH[of i' j'] Cons.prems(1) Suc show ?thesis by simp
  qed
qed

lemma split_distinct: "distinct ids \<Longrightarrow> distinct (concat (split ids None None))"
  by (simp add: concat_split)

lemma split_subset: "set (concat (split ids None None)) \<subseteq> set ids"
  by (auto simp: concat_split dest: in_set_takeD)

lemma split_batch_subset:
  "j < length (split ids None None) \<Longrightarrow> set (split ids None None ! j) \<subseteq> set ids"
proof -
  assume "j < length (split ids None None)"
  then have "split ids None None ! j \<in> set (split ids None None)" by (rule nth_mem)
  then have "set (split ids None None ! j) \<subseteq> set (concat (split ids None None))" by auto
  with split_subset[of ids] show ?thesis by blast
qed

lemma classify_by_own_batch:
  assumes "distinct ids"
      and "mset (check_order e) = mset [0..<length (split ids None None)]"
      and "j < length (split ids None None)"
      and "k \<in> set (split ids None None ! j)"
  shows "obj_get (statuses (snd (batchCheckStreamStatuses e ids s))) k =
         obj_get (statuses (snd (filterBatch (timeseries_api e j) (split ids None None ! j) s))) k"
proof -
  let ?bs = "split ids None None"
  have d: "distinct (check_order e)"
    using assms(2) mset_eq_imp_distinct_iff[of "check_order e" "[0..<length ?bs]"] by simp
  have m: "j \<in> set (check_order e)"
    using assms(2,3) mset_eq_setD[of "check_order e" "[0..<length ?bs]"] by simp
  have other: "k \<notin> set (?bs ! j')" if "j' < length ?bs" "j' \<noteq> j" for j'
  proof -
    have "set (?bs ! j') \<inter> set (?bs ! j) = {}"
    proof (cases "j' < j")
      case True
      then show ?thesis
        using batches_disjoint[OF split_distinct[OF assms(1)], of j' j] assms(3) by simp
    next
      case False
      with that have "j < j'" by simp
      then show ?thesis
        using batches_disjoint[OF split_distinct[OF assms(1)], of j j'] that(1) by auto
    qed
    with assms(4) show ?thesis by auto
  qed
  show ?thesis
    unfolding batchCheckStreamStatuses_def Let_def
    by (rule Promise_map_determined[OF filterBatch_resolves assms(3) m d])
       (simp_all add: filterBatch_frame other filterBatch_determined[OF assms(4)])
qed

text \<open>
  C3, as stated: for every identifier of a batch whose own activity query succeeds and
  reports no activity, the entry is set to \<^verbatim>\<open>"inactive"\<close>. It is not so when the query of
  another identifier of the batch fails: of the batch \<^verbatim>\<open>["A", "B"]\<close>, where the query for
  \<^verbatim>\<open>A\<close> answers the counts \<open>[0, 0]\<close> and the query for \<^verbatim>\<open>B\<close> is rate limited, \<^verbatim>\<open>A\<close> is
  \<^verbatim>\<open>"unknown"\<close> afterwards.
\<close>

theorem filterBatch_sibling_failure:
  "(\<lambda>i k. if k = ''A'' then Inr [0, 0] else Inl (StatusCodeError 429)) 0 ([''A'', ''B''] ! 0)
     = (Inr [0, 0] :: error + int list)
   \<and> \<not> list_ex (\<lambda>p. p > 0) [0, 0 :: int]
   \<and> obj_get (statuses (snd (filterBatch
         (\<lambda>i k. if k = ''A'' then Inr [0, 0] else Inl (StatusCodeError 429))
         [''A'', ''B''] \<lparr>statuses = [], sent = [], checkpoint = None\<rparr>))) ''A''
       = Some ''unknown''
   \<and> obj_get (statuses (snd (filterBatch
         (\<lambda>i k. if k = ''A'' then Inr [0, 0] else Inl (StatusCodeError 429))
         [''A'', ''B''] \<lparr>statuses = [], sent = [], checkpoint = None\<rparr>))) ''A''
       \<noteq> Some ''inactive''"
  by code_simp

text \<open>
  C3, amended: when every activity query of a batch succeeds, each identifier of the
  batch whose query reports no positive operation count is set to \<^verbatim>\<open>"inactive"\<close>, each
  one whose query reports activity is absent from the status object afterwards, and the
  identifiers outside the batch keep what they had. The identifiers of a batch are
  distinct, as the identifiers of a run are.
\<close>

theorem filterBatch_classifies:
  assumes "distinct batch"
      and "\<forall>i<length batch. \<exists>counts. api i (batch ! i) = Inr counts"
  shows "(\<forall>i<length batch. \<forall>counts. api i (batch ! i) = Inr counts \<longrightarrow>
            obj_get (statuses (snd (filterBatch api batch s))) (batch ! i) =
              (if list_ex (\<lambda>p. p > 0) counts then None else Some ''inactive''))
       \<and> (\<forall>k. k \<notin> set batch \<longrightarrow>
            obj_get (statuses (snd (filterBatch api batch s))) k = obj_get (statuses s) k)"
proof (intro conjI allI impI)
  fix i counts
  assume i: "i < length batch" and c: "api i (batch ! i) = Inr counts"
  have ok: "\<forall>i<length batch. \<not> isl (api i (batch ! i))"
    using assms(2) by auto
  have "(\<exists>i'<length batch. batch ! i' = batch ! i
            \<and> list_ex (\<lambda>p. p > 0) (projr (api i' (batch ! i))))
        \<longleftrightarrow> list_ex (\<lambda>p. p > 0) counts"
    using assms(1) i c by (auto simp: nth_eq_iff_index_eq)
  with i show "obj_get (statuses (snd (filterBatch api batch s))) (batch ! i) =
              (if list_ex (\<lambda>p. p > 0) counts then None else Some ''inactive'')"
    by (simp add: filterBatch_success[of batch api, OF ok])
next
  fix k assume "k \<notin> set batch"
  then show "obj_get (statuses (snd (filterBatch api batch s))) k = obj_get (statuses s) k"
    by (rule filterBatch_frame)
qed

theorem filterBatch_classifies_witness:
  "obj_get (statuses (snd (filterBatch (\<lambda>i k. if k = ''A'' then Inr [0, 3] else Inr [0, 0])
       [''A'', ''B'']
       \<lparr>statuses = [(''A'', ''unknown''), (''B'', ''unknown''), (''C'', ''deleted'')],
        sent = [], checkpoint = None\<rparr>))) ''A'' = None
   \<and> obj_get (statuses (snd (filterBatch (\<lambda>i k. if k = ''A'' then Inr [0, 3] else Inr [0, 0])
       [''A'', ''B'']
       \<lparr>statuses = [(''A'', ''unknown''), (''B'', ''unknown''), (''C'', ''deleted'')],
        sent = [], checkpoint = None\<rparr>))) ''B'' = Some ''inactive''
   \<and> obj_get (statuses (snd (filterBatch (\<lambda>i k. if k = ''A'' then Inr [0, 3] else Inr [0, 0])
       [''A'', ''B'']
       \<lparr>statuses = [(''A'', ''unknown''), (''B'', ''unknown''), (''C'', ''deleted'')],
        sent = [], checkpoint = None\<rparr>))) ''C'' = Some ''deleted''"
proof -
  let ?api = "\<lambda>(i::nat) k. if k = ''A'' then Inr [0, 3 :: int] else (Inr [0, 0] :: error + int list)"
  let ?batch = "[''A'', ''B'']"
  let ?s = "\<lparr>statuses = [(''A'', ''unknown''), (''B'', ''unknown''), (''C'', ''deleted'')],
        sent = [], checkpoint = None\<rparr>"
  have d: "distinct ?batch" by simp
  have ok: "\<forall>i<length ?batch. \<exists>counts. ?api i (?batch ! i) = Inr counts" by simp
  note T = filterBatch_classifies[of ?batch ?api ?s, OF d ok]
  from T have a: "obj_get (statuses (snd (filterBatch ?api ?batch ?s))) (?batch ! 0) =
      (if list_ex (\<lambda>p. p > 0) [0, 3 :: int] then None else Some ''inactive'')"
    by (elim conjE allE[of _ 0] allE[of _ "[0, 3]"]) simp
  from T have b: "obj_get (statuses (snd (filterBatch ?api ?batch ?s))) (?batch ! 1) =
      (if list_ex (\<lambda>p. p > 0) [0, 0 :: int] then None else Some ''inactive'')"
    by (elim conjE allE[of _ 1] allE[of _ "[0, 0]"]) simp
  from T have c: "obj_get (statuses (snd (filterBatch ?api ?batch ?s))) ''C'' = obj_get (statuses ?s) ''C''"
    by simp
  from a b c show ?thesis by (simp add: obj_get_def)
qed

subsection \<open>Classification of all batches\<close>

lemma split_twenty_ids:
  "split twenty_ids None None =
     [[''a'', ''b'', ''c'', ''d'', ''e'', ''f'', ''g'', ''h'', ''i'', ''j''],
      [''k'', ''l'', ''m'', ''n'', ''o'', ''p'', ''q'', ''r'', ''s'', ''t'']]"
  by code_simp

text \<open>
  C4 (a failed batch is contained). Let the identifiers be distinct and let every batch
  complete once, in any order. If one request of batch \<open>j\<close> fails, then classification
  still resolves (the error does not reach the caller), every identifier of batch \<open>j\<close> is
  \<^verbatim>\<open>"unknown"\<close> at the end, and every identifier of another batch ends with the status
  that its own batch alone gives it.
\<close>

theorem classify_failure_contained:
  assumes "distinct ids"
      and "mset (check_order e) = mset [0..<length (split ids None None)]"
      and "j < length (split ids None None)"
      and "i < length (split ids None None ! j)"
      and "timeseries_api e j i (split ids None None ! j ! i) = Inl err"
  shows "fst (batchCheckStreamStatuses e ids s) = Inr ()
       \<and> (\<forall>k \<in> set (split ids None None ! j).
            obj_get (statuses (snd (batchCheckStreamStatuses e ids s))) k = Some ''unknown'')
       \<and> (\<forall>j' < length (split ids None None). j' \<noteq> j \<longrightarrow>
            (\<forall>k \<in> set (split ids None None ! j').
               obj_get (statuses (snd (batchCheckStreamStatuses e ids s))) k =
               obj_get (statuses (snd (filterBatch (timeseries_api e j')
                                         (split ids None None ! j') s))) k))"
proof (intro conjI ballI allI impI)
  show "fst (batchCheckStreamStatuses e ids s) = Inr ()"
    unfolding batchCheckStreamStatuses_def Let_def
    by (rule Promise_map_resolves) (rule filterBatch_resolves)
next
  fix k assume k: "k \<in> set (split ids None None ! j)"
  have "isl (timeseries_api e j i (split ids None None ! j ! i))"
    using assms(5) by simp
  from filterBatch_failure[of i "split ids None None ! j" "timeseries_api e j", OF assms(4) this]
  have "obj_get (statuses (snd (filterBatch (timeseries_api e j) (split ids None None ! j) s))) k
        = Some ''unknown''"
    using k by simp
  then show "obj_get (statuses (snd (batchCheckStreamStatuses e ids s))) k = Some ''unknown''"
    by (simp add: classify_by_own_batch[OF assms(1,2,3) k])
next
  fix j' k
  assume "j' < length (split ids None None)" and "k \<in> set (split ids None None ! j')"
  then show "obj_get (statuses (snd (batchCheckStreamStatuses e ids s))) k =
             obj_get (statuses (snd (filterBatch (timeseries_api e j')
                                       (split ids None None ! j') s))) k"
    by (rule classify_by_own_batch[OF assms(1,2)])
qed

theorem classify_failure_contained_witness:
  "fst (batchCheckStreamStatuses rate_limited_env twenty_ids empty_state) = Inr ()
   \<and> obj_get (statuses (snd (batchCheckStreamStatuses rate_limited_env twenty_ids empty_state)))
        ''a'' = Some ''unknown''
   \<and> obj_get (statuses (snd (batchCheckStreamStatuses rate_limited_env twenty_ids empty_state)))
        ''d'' = Some ''unknown''
   \<and> obj_get (statuses (snd (batchCheckStreamStatuses rate_limited_env twenty_ids empty_state)))
        ''k'' = Some ''inactive''
   \<and> obj_get (statuses (snd (batchCheckStreamStatuses rate_limited_env twenty_ids empty_state)))
        ''m'' = None"
proof -
  have d: "distinct twenty_ids"
    by (simp add: twenty_ids_def)
  have o: "mset (check_order rate_limited_env) = mset [0..<length (split twenty_ids None None)]"
    by (simp add: split_twenty_ids rate_limited_env_def upt_rec)
  have j: "0 < length (split twenty_ids None None)"
    by (simp add: split_twenty_ids)
  have i: "3 < length (split twenty_ids None None ! 0)"
    by (simp add: split_twenty_ids)
  have f: "timeseries_api rate_limited_env 0 3 (split twenty_ids None None ! 0 ! 3)
           = Inl (StatusCodeError 429)"
    by (simp add: rate_limited_env_def)
  note T = classify_failure_contained[OF d o j i f, of empty_state]
  have own: "obj_get (statuses (snd (filterBatch (timeseries_api rate_limited_env 1)
               [''k'', ''l'', ''m'', ''n'', ''o'', ''p'', ''q'', ''r'', ''s'', ''t''] empty_state))) ''k''
             = Some ''inactive''"
       "obj_get (statuses (snd (filterBatch (timeseries_api rate_limited_env 1)
               [''k'', ''l'', ''m'', ''n'', ''o'', ''p'', ''q'', ''r'', ''s'', ''t''] empty_state))) ''m''
             = None"
    by code_simp+
  from T have "\<forall>k \<in> set (split twenty_ids None None ! 1).
      obj_get (statuses (snd (batchCheckStreamStatuses rate_limited_env twenty_ids empty_state))) k =
      obj_get (statuses (snd (filterBatch (timeseries_api rate_limited_env 1)
                                (split twenty_ids None None ! 1) empty_state))) k"
    by (simp add: split_twenty_ids)
  then have other:
    "obj_get (statuses (snd (batchCheckStreamStatuses rate_limited_env twenty_ids empty_state))) ''k''
       = Some ''inactive''"
    "obj_get (statuses (snd (batchCheckStreamStatuses rate_limited_env twenty_ids empty_state))) ''m''
       = None"
    using own by (simp_all add: split_twenty_ids)
  from T have failed: "\<forall>k \<in> set (split twenty_ids None None ! 0).
      obj_get (statuses (snd (batchCheckStreamStatuses rate_limited_env twenty_ids empty_state))) k
        = Some ''unknown''"
    by blast
  from T have "fst (batchCheckStreamStatuses rate_limited_env twenty_ids empty_state) = Inr ()"
    by blast
  with failed other show ?thesis
    by (simp add: split_twenty_ids)
qed

subsection \<open>Deletion\<close>

lemma answers_fail_iff:
  "(\<exists>err. Promise_all (map (\<lambda>(i, streamId). api i streamId) (enumerate 0 batch)) = Inl err)
     \<longleftrightarrow> (\<exists>i<length batch. isl (api i (batch ! i)))"
proof -
  have "(\<exists>p \<in> set (map (\<lambda>(i, streamId). api i streamId) (enumerate 0 batch)). isl p)
        \<longleftrightarrow> (\<exists>i<length batch. isl (api i (batch ! i)))"
  proof
    assume "\<exists>p \<in> set (map (\<lambda>(i, streamId). api i streamId) (enumerate 0 batch)). isl p"
    then obtain i x where "(i, x) \<in> set (enumerate 0 batch)" "isl (api i x)" by auto
    then show "\<exists>i<length batch. isl (api i (batch ! i))"
      by (auto simp: in_set_enumerate0)
  next
    assume "\<exists>i<length batch. isl (api i (batch ! i))"
    then obtain i where i: "i < length batch" "isl (api i (batch ! i))" by blast
    then have "(i, batch ! i) \<in> set (enumerate 0 batch)" by (simp add: in_set_enumerate0)
    with i(2) show "\<exists>p \<in> set (map (\<lambda>(i, streamId). api i streamId) (enumerate 0 batch)). isl p"
      by force
  qed
  then show ?thesis by (simp only: Promise_all_Inl)
qed

lemma obj_get_foldl_in_time:
  "obj_get (foldl (\<lambda>st (i, streamId).
                     case api i streamId of
                       Inl err' \<Rightarrow> st
                     | Inr u \<Rightarrow> if arrives i = InTime then obj_set st streamId ''deleted'' else st)
              st ps) k =
     (if \<exists>i. (i, k) \<in> set ps \<and> api i k = Inr () \<and> arrives i = InTime then Some ''deleted''
      else obj_get st k)"
proof (induction ps arbitrary: st)
  case Nil
  show ?case by simp
next
  case (Cons p ps)
  obtain i k' where p: "p = (i, k')" by (cases p)
  show ?case
  proof (cases "api i k'")
    case (Inl err)
    with p show ?thesis by (auto simp: Cons.IH)
  next
    case (Inr u)
    with p show ?thesis by (auto simp: Cons.IH obj_get_set)
  qed
qed

lemma deleteBatch_resolves: "fst (deleteBatch api arrives batch s) = Inr ()"
  by (simp add: deleteBatch_def Let_def split: sum.splits)

lemma deleteBatch_sent:
  "sent (snd (deleteBatch api arrives batch s)) = sent s @ map DeleteStream batch"
  by (simp add: deleteBatch_def Let_def split: sum.splits)

lemma deleteBatch_checkpoint:
  "checkpoint (snd (deleteBatch api arrives batch s)) = checkpoint s"
  by (simp add: deleteBatch_def Let_def split: sum.splits)

lemma deleteBatch_get:
  "obj_get (statuses (snd (deleteBatch api arrives batch s))) k =
     (if \<exists>i<length batch. batch ! i = k \<and> api i k = Inr ()
            \<and> ((\<forall>i'<length batch. \<not> isl (api i' (batch ! i'))) \<or> arrives i = InTime)
      then Some ''deleted''
      else obj_get (statuses s) k)"
proof (cases "Promise_all (map (\<lambda>(i, streamId). api i streamId) (enumerate 0 batch))")
  case (Inr us)
  then have ok: "\<forall>i'<length batch. \<not> isl (api i' (batch ! i'))"
    using answers_fail_iff[of api batch] by auto
  then have all: "api i (batch ! i) = Inr ()" if "i < length batch" for i
    using that by (cases "api i (batch ! i)") auto
  have "statuses (snd (deleteBatch api arrives batch s)) =
          foldl (\<lambda>st streamId. obj_set st streamId ''deleted'') (statuses s) batch"
    using Inr by (simp add: deleteBatch_def Let_def)
  then have "obj_get (statuses (snd (deleteBatch api arrives batch s))) k =
          (if k \<in> set batch then Some ''deleted'' else obj_get (statuses s) k)"
    using obj_get_foldl_set[of "\<lambda>x. x" "''deleted''" "statuses s" batch k] by simp
  moreover have "k \<in> set batch \<longleftrightarrow>
      (\<exists>i<length batch. batch ! i = k \<and> api i k = Inr ()
            \<and> ((\<forall>i'<length batch. \<not> isl (api i' (batch ! i'))) \<or> arrives i = InTime))"
    using ok all by (auto simp: in_set_conv_nth)
  ultimately show ?thesis by simp
next
  case (Inl err)
  then have bad: "\<not> (\<forall>i'<length batch. \<not> isl (api i' (batch ! i')))"
    using answers_fail_iff[of api batch] by auto
  have "statuses (snd (deleteBatch api arrives batch s)) =
          foldl (\<lambda>st (i, streamId).
                     case api i streamId of
                       Inl err' \<Rightarrow> st
                     | Inr u \<Rightarrow> if arrives i = InTime then obj_set st streamId ''deleted'' else st)
            (statuses s) (enumerate 0 batch)"
    using Inl by (simp add: deleteBatch_def Let_def)
  then show ?thesis
    using bad by (simp only: obj_get_foldl_in_time in_set_enumerate0) auto
qed

lemma deleteBatch_keeps_deleted:
  "obj_get (statuses s) k = Some ''deleted'' \<Longrightarrow>
   obj_get (statuses (snd (deleteBatch api arrives batch s))) k = Some ''deleted''"
  by (simp add: deleteBatch_get)

lemma in_lateAnswers:
  "(a, k) \<in> set (lateAnswers api arrives batch) \<longleftrightarrow>
     (\<exists>i'<length batch. isl (api i' (batch ! i')))
     \<and> (\<exists>i<length batch. batch ! i = k \<and> api i k = Inr () \<and> arrives i = a \<and> a \<noteq> InTime)"
proof (cases "Promise_all (map (\<lambda>(i, streamId). api i streamId) (enumerate 0 batch))")
  case (Inr us)
  then have "\<not> (\<exists>i'<length batch. isl (api i' (batch ! i')))"
    using answers_fail_iff[of api batch] by auto
  with Inr show ?thesis by (simp add: lateAnswers_def)
next
  case (Inl err)
  then have "\<exists>i'<length batch. isl (api i' (batch ! i'))"
    using answers_fail_iff[of api batch] by auto
  moreover have "(a, k) \<in> set (lateAnswers api arrives batch) \<longleftrightarrow>
      (\<exists>i<length batch. batch ! i = k \<and> api i k = Inr () \<and> arrives i = a \<and> a \<noteq> InTime)"
    using Inl by (force simp: lateAnswers_def in_set_enumerate0)
  ultimately show ?thesis by simp
qed

lemma in_outstanding:
  "(a, k) \<in> set (outstanding e ids) \<longleftrightarrow>
     (\<exists>j \<in> set (delete_order e). j < length (split ids None None)
        \<and> (a, k) \<in> set (lateAnswers (delete_api e j) (delete_arrival e j) (split ids None None ! j)))"
  by (auto simp: outstanding_def Let_def split: if_splits)

lemma obj_get_foldl_answered:
  "obj_get (foldl (\<lambda>st (a, streamId). if a \<in> set ms then obj_set st streamId ''deleted'' else st)
              st late) k =
     (if \<exists>a \<in> set ms. (a, k) \<in> set late then Some ''deleted'' else obj_get st k)"
proof (induction late arbitrary: st)
  case Nil
  show ?case by simp
next
  case (Cons p late)
  obtain a k' where p: "p = (a, k')" by (cases p)
  then show ?case by (auto simp: Cons.IH obj_get_set)
qed

lemma answered_get:
  "obj_get (statuses (answered ms late s)) k =
     (if \<exists>a \<in> set ms. (a, k) \<in> set late then Some ''deleted'' else obj_get (statuses s) k)"
  by (simp add: answered_def obj_get_foldl_answered)

lemma answered_sent: "sent (answered ms late s) = sent s"
  by (simp add: answered_def)

lemma answered_checkpoint: "checkpoint (answered ms late s) = checkpoint s"
  by (simp add: answered_def)

lemma answered_none: "answered ms [] s = s"
  by (simp add: answered_def)

lemma Promise_map_marks:
  assumes res: "\<And>j b s. fst (w j b s) = Inr ()"
      and eff: "\<And>j s. j < length bs \<Longrightarrow>
                  obj_get (statuses (snd (w j (bs ! j) s))) k =
                    (if c j then Some v else obj_get (statuses s) k)"
  shows "obj_get (statuses (snd (Promise_map w bs order s))) k =
           (if \<exists>j \<in> set order. j < length bs \<and> c j then Some v else obj_get (statuses s) k)"
proof (induction order arbitrary: s)
  case Nil
  show ?case by simp
next
  case (Cons j order)
  show ?case
  proof (cases "j < length bs")
    case False
    then show ?thesis by (auto simp: Cons.IH)
  next
    case True
    obtain r s' where ws: "w j (bs ! j) s = (r, s')" by (cases "w j (bs ! j) s")
    with res[of j "bs ! j" s] have r: "r = Inr ()" by simp
    from eff[OF True, of s] ws
    have "obj_get (statuses s') k = (if c j then Some v else obj_get (statuses s) k)" by simp
    with ws r True show ?thesis by (auto simp: Cons.IH)
  qed
qed

lemma batchDeleteStreams_get:
  "obj_get (statuses (snd (batchDeleteStreams e ids s))) k =
     (if \<exists>j \<in> set (delete_order e). j < length (split ids None None)
           \<and> (\<exists>i<length (split ids None None ! j).
                 split ids None None ! j ! i = k \<and> delete_api e j i k = Inr ()
                 \<and> ((\<forall>i'<length (split ids None None ! j).
                        \<not> isl (delete_api e j i' (split ids None None ! j ! i')))
                    \<or> delete_arrival e j i = InTime))
      then Some ''deleted''
      else obj_get (statuses s) k)"
  unfolding batchDeleteStreams_def Let_def
  by (rule Promise_map_marks[where w = "\<lambda>j b. deleteBatch (delete_api e j) (delete_arrival e j) b"])
     (simp_all add: deleteBatch_resolves deleteBatch_get)

text \<open>
  C5 (outcome of the deletion). Let every batch complete once, in any order. Deletion
  resolves whatever the requests answer. An identifier whose delete request succeeds has
  its entry set to \<^verbatim>\<open>"deleted"\<close>: it is \<^verbatim>\<open>"deleted"\<close> once every answer has arrived, and
  already when deletion resolves if no request of its batch fails or its answer arrives
  before the failure. When deletion resolves, an identifier whose deletion is not
  confirmed by then (each successful request for it is in a batch with a failure and
  arrives after it) has the status it had; so has, after every answer, an identifier that
  no successful request names. The delete request of every identifier of every batch is
  sent, also when a request of another batch fails.
\<close>

theorem batchDeleteStreams_outcome:
  assumes "mset (delete_order e) = mset [0..<length (split ids None None)]"
  shows "fst (batchDeleteStreams e ids s) = Inr ()
       \<and> (\<forall>j<length (split ids None None). \<forall>i<length (split ids None None ! j).
            delete_api e j i (split ids None None ! j ! i) = Inr () \<longrightarrow>
              obj_get (statuses (answered [BeforeCheckpoint, BeforeReport, AfterReport]
                                   (outstanding e ids) (snd (batchDeleteStreams e ids s))))
                (split ids None None ! j ! i) = Some ''deleted'')
       \<and> (\<forall>j<length (split ids None None). \<forall>i<length (split ids None None ! j).
            delete_api e j i (split ids None None ! j ! i) = Inr ()
            \<and> ((\<forall>i'<length (split ids None None ! j).
                   \<not> isl (delete_api e j i' (split ids None None ! j ! i')))
                \<or> delete_arrival e j i = InTime) \<longrightarrow>
              obj_get (statuses (snd (batchDeleteStreams e ids s))) (split ids None None ! j ! i)
                = Some ''deleted'')
       \<and> (\<forall>k. (\<forall>j<length (split ids None None). \<forall>i<length (split ids None None ! j).
                  split ids None None ! j ! i = k \<and> delete_api e j i k = Inr () \<longrightarrow>
                    (\<exists>i'<length (split ids None None ! j).
                        isl (delete_api e j i' (split ids None None ! j ! i')))
                    \<and> delete_arrival e j i \<noteq> InTime) \<longrightarrow>
              obj_get (statuses (snd (batchDeleteStreams e ids s))) k = obj_get (statuses s) k)
       \<and> (\<forall>k. (\<forall>j<length (split ids None None). \<forall>i<length (split ids None None ! j).
                  split ids None None ! j ! i = k \<longrightarrow> delete_api e j i k \<noteq> Inr ()) \<longrightarrow>
              obj_get (statuses (answered [BeforeCheckpoint, BeforeReport, AfterReport]
                                   (outstanding e ids) (snd (batchDeleteStreams e ids s)))) k
                = obj_get (statuses s) k)
       \<and> (\<forall>j<length (split ids None None). \<forall>k \<in> set (split ids None None ! j).
              DeleteStream k \<in> set (sent (snd (batchDeleteStreams e ids s))))"
proof (intro conjI allI impI ballI)
  let ?bs = "split ids None None"
  let ?w = "\<lambda>j b. deleteBatch (delete_api e j) (delete_arrival e j) b"
  let ?R = "snd (batchDeleteStreams e ids s)"
  let ?F = "answered [BeforeCheckpoint, BeforeReport, AfterReport] (outstanding e ids) ?R"
  have res: "\<And>j b s. fst (?w j b s) = Inr ()" by (rule deleteBatch_resolves)
  have ord: "j \<in> set (delete_order e) \<longleftrightarrow> j < length ?bs" for j
    using assms mset_eq_setD[of "delete_order e" "[0..<length ?bs]"] by auto
  show "fst (batchDeleteStreams e ids s) = Inr ()"
    unfolding batchDeleteStreams_def Let_def
    by (rule Promise_map_resolves) (rule deleteBatch_resolves)
  {
    fix j i
    assume j: "j < length ?bs" and i: "i < length (?bs ! j)"
       and ok: "delete_api e j i (?bs ! j ! i) = Inr ()
                \<and> ((\<forall>i'<length (?bs ! j). \<not> isl (delete_api e j i' (?bs ! j ! i')))
                    \<or> delete_arrival e j i = InTime)"
    from j i ok show "obj_get (statuses ?R) (?bs ! j ! i) = Some ''deleted''"
      by (subst batchDeleteStreams_get) (use ord in auto)
  }
  {
    fix j i
    assume j: "j < length ?bs" and i: "i < length (?bs ! j)"
       and ok: "delete_api e j i (?bs ! j ! i) = Inr ()"
    show "obj_get (statuses ?F) (?bs ! j ! i) = Some ''deleted''"
    proof (cases "(\<forall>i'<length (?bs ! j). \<not> isl (delete_api e j i' (?bs ! j ! i')))
                  \<or> delete_arrival e j i = InTime")
      case True
      with j i ok have "obj_get (statuses ?R) (?bs ! j ! i) = Some ''deleted''"
        by (subst batchDeleteStreams_get) (use ord in auto)
      then show ?thesis by (simp add: answered_get)
    next
      case False
      with j i ok
      have "(delete_arrival e j i, ?bs ! j ! i)
              \<in> set (lateAnswers (delete_api e j) (delete_arrival e j) (?bs ! j))"
        by (subst in_lateAnswers) auto
      with j have late: "(delete_arrival e j i, ?bs ! j ! i) \<in> set (outstanding e ids)"
        by (subst in_outstanding) (use ord in auto)
      from False have "delete_arrival e j i \<in> {BeforeCheckpoint, BeforeReport, AfterReport}"
        by (cases "delete_arrival e j i") auto
      with late show ?thesis
        by (subst answered_get) auto
    qed
  }
  {
    fix k
    assume "\<forall>j<length ?bs. \<forall>i<length (?bs ! j).
              ?bs ! j ! i = k \<and> delete_api e j i k = Inr () \<longrightarrow>
                (\<exists>i'<length (?bs ! j). isl (delete_api e j i' (?bs ! j ! i')))
                \<and> delete_arrival e j i \<noteq> InTime"
    then show "obj_get (statuses ?R) k = obj_get (statuses s) k"
      by (subst batchDeleteStreams_get) (use ord in auto)
  }
  {
    fix k
    assume none: "\<forall>j<length ?bs. \<forall>i<length (?bs ! j).
                    ?bs ! j ! i = k \<longrightarrow> delete_api e j i k \<noteq> Inr ()"
    then have "obj_get (statuses ?R) k = obj_get (statuses s) k"
      by (subst batchDeleteStreams_get) (use ord in auto)
    moreover have "(a, k) \<notin> set (outstanding e ids)" for a
      using none by (auto simp: in_outstanding in_lateAnswers)
    ultimately show "obj_get (statuses ?F) k = obj_get (statuses s) k"
      by (simp add: answered_get)
  }
  {
    fix j k
    assume j: "j < length ?bs" and k: "k \<in> set (?bs ! j)"
    from j have "j \<in> set (delete_order e)" by (simp add: ord)
    then obtain pre post where o: "delete_order e = pre @ j # post"
      by (auto simp: in_set_conv_decomp)
    let ?s2 = "snd (?w j (?bs ! j) (snd (Promise_map ?w ?bs pre s)))"
    have final: "?R = snd (Promise_map ?w ?bs post ?s2)"
      unfolding batchDeleteStreams_def Let_def
      by (rule Promise_map_once[of ?w, OF res j o])
    from k have "DeleteStream k \<in> set (sent ?s2)"
      by (simp add: deleteBatch_sent)
    then have "DeleteStream k \<in> set (sent (snd (Promise_map ?w ?bs post ?s2)))"
      by (rule Promise_map_invariant[where P = "\<lambda>t. DeleteStream k \<in> set (sent t)"])
         (simp add: deleteBatch_sent)
    with final show "DeleteStream k \<in> set (sent ?R)" by simp
  }
qed

subsection \<open>What the two phases leave alone\<close>

lemma batchCheckStreamStatuses_resolves: "fst (batchCheckStreamStatuses e ids s) = Inr ()"
  unfolding batchCheckStreamStatuses_def Let_def
  by (rule Promise_map_resolves) (rule filterBatch_resolves)

lemma batchDeleteStreams_resolves: "fst (batchDeleteStreams e ids s) = Inr ()"
  unfolding batchDeleteStreams_def Let_def
  by (rule Promise_map_resolves) (rule deleteBatch_resolves)

lemma deleteStreams_resolves: "fst (deleteStreams args e s) = Inr ()"
  by (simp add: deleteStreams_def batchDeleteStreams_resolves)

lemma batchCheckStreamStatuses_frame:
  assumes "k \<notin> set ids"
  shows "obj_get (statuses (snd (batchCheckStreamStatuses e ids s))) k = obj_get (statuses s) k"
  unfolding batchCheckStreamStatuses_def Let_def
proof (rule Promise_map_invariant[where P = "\<lambda>t. obj_get (statuses t) k = obj_get (statuses s) k"])
  show "obj_get (statuses s) k = obj_get (statuses s) k" ..
next
  fix j and t :: state
  assume j: "j < length (split ids None None)"
     and t: "obj_get (statuses t) k = obj_get (statuses s) k"
  from assms split_batch_subset[OF j] have "k \<notin> set (split ids None None ! j)" by blast
  with t show "obj_get (statuses (snd (filterBatch (timeseries_api e j) (split ids None None ! j) t))) k
               = obj_get (statuses s) k"
    by (simp add: filterBatch_frame)
qed

lemma batchDeleteStreams_frame:
  assumes "k \<notin> set ids"
  shows "obj_get (statuses (snd (batchDeleteStreams e ids s))) k = obj_get (statuses s) k"
proof -
  have "k \<notin> set (split ids None None ! j)" if "j < length (split ids None None)" for j
    using assms split_batch_subset[OF that] by blast
  then show ?thesis
    by (subst batchDeleteStreams_get) (auto simp: in_set_conv_nth)
qed

lemma batchDeleteStreams_keeps_deleted:
  assumes "obj_get (statuses s) k = Some ''deleted''"
  shows "obj_get (statuses (snd (batchDeleteStreams e ids s))) k = Some ''deleted''"
  using assms by (subst batchDeleteStreams_get) simp

lemma outstanding_subset: "(a, k) \<in> set (outstanding e ids) \<Longrightarrow> k \<in> set ids"
proof -
  assume "(a, k) \<in> set (outstanding e ids)"
  then obtain j where j: "j < length (split ids None None)"
      and "(a, k) \<in> set (lateAnswers (delete_api e j) (delete_arrival e j) (split ids None None ! j))"
    by (auto simp: in_outstanding)
  then have "k \<in> set (split ids None None ! j)"
    by (auto simp: in_lateAnswers)
  with split_batch_subset[OF j] show ?thesis by blast
qed

lemma obj_get_in_keys: "obj_get l k = Some v \<Longrightarrow> k \<in> set (obj_keys l)"
  by (auto simp: obj_get_def obj_keys_def dest: map_of_SomeD intro: rev_image_eqI)

lemma in_streamIdsToBeChecked:
  "k \<in> set (streamIdsToBeChecked l) \<longleftrightarrow> obj_get l k = Some ''unknown''"
  by (auto simp: streamIdsToBeChecked_def dest: obj_get_in_keys)

lemma in_streamIdsToBeDeleted:
  "k \<in> set (streamIdsToBeDeleted l) \<longleftrightarrow> obj_get l k = Some ''inactive''"
  by (auto simp: streamIdsToBeDeleted_def dest: obj_get_in_keys)

text \<open>
  C6 (a deleted entry stays deleted). An identifier whose status is \<^verbatim>\<open>"deleted"\<close> is not
  among the identifiers a resumed run checks, and is \<^verbatim>\<open>"deleted"\<close> after the
  classification of those; it is not among the identifiers the deletion phase selects,
  and is \<^verbatim>\<open>"deleted"\<close> after that phase, for every answer of the API and every order of
  the batches.
\<close>

theorem deleted_is_final:
  assumes "obj_get (statuses s) k = Some ''deleted''"
  shows "k \<notin> set (streamIdsToBeChecked (statuses s))
       \<and> obj_get (statuses (snd (batchCheckStreamStatuses e (streamIdsToBeChecked (statuses s)) s))) k
           = Some ''deleted''
       \<and> k \<notin> set (streamIdsToBeDeleted (statuses s))
       \<and> obj_get (statuses (snd (deleteStreams args e s))) k = Some ''deleted''"
proof -
  have c: "k \<notin> set (streamIdsToBeChecked (statuses s))"
    using assms by (simp add: in_streamIdsToBeChecked)
  have d: "k \<notin> set (streamIdsToBeDeleted (statuses s))"
    using assms by (simp add: in_streamIdsToBeDeleted)
  have "obj_get (statuses (snd (deleteStreams args e s))) k = Some ''deleted''"
    using assms by (simp add: deleteStreams_def batchDeleteStreams_keeps_deleted)
  with c d assms show ?thesis
    by (simp add: batchCheckStreamStatuses_frame)
qed

subsection \<open>The two phases on the example runs\<close>

theorem batchDeleteStreams_outcome_witness:
  "fst (batchDeleteStreams rate_limited_env twenty_ids inactive_state) = Inr ()
   \<and> obj_get (statuses (snd (batchDeleteStreams rate_limited_env twenty_ids inactive_state))) ''a''
       = Some ''deleted''
   \<and> obj_get (statuses (snd (batchDeleteStreams rate_limited_env twenty_ids inactive_state))) ''o''
       = Some ''deleted''
   \<and> obj_get (statuses (snd (batchDeleteStreams rate_limited_env twenty_ids inactive_state))) ''p''
       = Some ''inactive''
   \<and> obj_get (statuses (snd (batchDeleteStreams rate_limited_env twenty_ids inactive_state))) ''r''
       = Some ''inactive''
   \<and> obj_get (statuses (answered [BeforeCheckpoint, BeforeReport, AfterReport]
                          (outstanding rate_limited_env twenty_ids)
                          (snd (batchDeleteStreams rate_limited_env twenty_ids inactive_state)))) ''r''
       = Some ''deleted''
   \<and> obj_get (statuses (answered [BeforeCheckpoint, BeforeReport, AfterReport]
                          (outstanding rate_limited_env twenty_ids)
                          (snd (batchDeleteStreams rate_limited_env twenty_ids inactive_state)))) ''q''
       = Some ''inactive''
   \<and> DeleteStream ''a'' \<in> set (sent (snd (batchDeleteStreams rate_limited_env twenty_ids inactive_state)))"
proof -
  let ?R = "snd (batchDeleteStreams rate_limited_env twenty_ids inactive_state)"
  let ?F = "answered [BeforeCheckpoint, BeforeReport, AfterReport]
              (outstanding rate_limited_env twenty_ids) ?R"
  have o: "mset (delete_order rate_limited_env) = mset [0..<length (split twenty_ids None None)]"
    by (simp add: split_twenty_ids rate_limited_env_def upt_rec)
  note T = batchDeleteStreams_outcome[OF o, of inactive_state]
  from T have r: "fst (batchDeleteStreams rate_limited_env twenty_ids inactive_state) = Inr ()"
    by blast
  from T have at_end: "\<forall>j<length (split twenty_ids None None).
      \<forall>i<length (split twenty_ids None None ! j).
        delete_api rate_limited_env j i (split twenty_ids None None ! j ! i) = Inr () \<longrightarrow>
        obj_get (statuses ?F) (split twenty_ids None None ! j ! i) = Some ''deleted''"
    by blast
  from T have at_once: "\<forall>j<length (split twenty_ids None None).
      \<forall>i<length (split twenty_ids None None ! j).
        delete_api rate_limited_env j i (split twenty_ids None None ! j ! i) = Inr ()
        \<and> ((\<forall>i'<length (split twenty_ids None None ! j).
               \<not> isl (delete_api rate_limited_env j i' (split twenty_ids None None ! j ! i')))
            \<or> delete_arrival rate_limited_env j i = InTime) \<longrightarrow>
        obj_get (statuses ?R) (split twenty_ids None None ! j ! i) = Some ''deleted''"
    by blast
  from T have pending: "\<forall>k. (\<forall>j<length (split twenty_ids None None).
      \<forall>i<length (split twenty_ids None None ! j).
        split twenty_ids None None ! j ! i = k \<and> delete_api rate_limited_env j i k = Inr () \<longrightarrow>
          (\<exists>i'<length (split twenty_ids None None ! j).
              isl (delete_api rate_limited_env j i' (split twenty_ids None None ! j ! i')))
          \<and> delete_arrival rate_limited_env j i \<noteq> InTime) \<longrightarrow>
      obj_get (statuses ?R) k = obj_get (statuses inactive_state) k"
    by blast
  from T have never: "\<forall>k. (\<forall>j<length (split twenty_ids None None).
      \<forall>i<length (split twenty_ids None None ! j).
        split twenty_ids None None ! j ! i = k \<longrightarrow> delete_api rate_limited_env j i k \<noteq> Inr ()) \<longrightarrow>
      obj_get (statuses ?F) k = obj_get (statuses inactive_state) k"
    by blast
  from T have all_sent: "\<forall>j<length (split twenty_ids None None).
      \<forall>k \<in> set (split twenty_ids None None ! j). DeleteStream k \<in> set (sent ?R)"
    by blast
  have a: "obj_get (statuses ?R) ''a'' = Some ''deleted''"
    using at_once[rule_format, of 0 0]
    by (simp add: split_twenty_ids rate_limited_env_def All_less_Suc)
  have i: "obj_get (statuses ?R) ''o'' = Some ''deleted''"
    using at_once[rule_format, of 1 4] by (simp add: split_twenty_ids rate_limited_env_def)
  have "\<forall>j<length (split twenty_ids None None). \<forall>i<length (split twenty_ids None None ! j).
        split twenty_ids None None ! j ! i = ''p'' \<and> delete_api rate_limited_env j i ''p'' = Inr () \<longrightarrow>
          (\<exists>i'<length (split twenty_ids None None ! j).
              isl (delete_api rate_limited_env j i' (split twenty_ids None None ! j ! i')))
          \<and> delete_arrival rate_limited_env j i \<noteq> InTime"
    by (simp add: split_twenty_ids rate_limited_env_def All_less_Suc Ex_less_Suc)
  with pending have "obj_get (statuses ?R) ''p'' = obj_get (statuses inactive_state) ''p''"
    by blast
  then have p: "obj_get (statuses ?R) ''p'' = Some ''inactive''"
    by (simp add: inactive_state_def twenty_ids_def obj_get_def)
  have "\<forall>j<length (split twenty_ids None None). \<forall>i<length (split twenty_ids None None ! j).
        split twenty_ids None None ! j ! i = ''r'' \<and> delete_api rate_limited_env j i ''r'' = Inr () \<longrightarrow>
          (\<exists>i'<length (split twenty_ids None None ! j).
              isl (delete_api rate_limited_env j i' (split twenty_ids None None ! j ! i')))
          \<and> delete_arrival rate_limited_env j i \<noteq> InTime"
    by (simp add: split_twenty_ids rate_limited_env_def All_less_Suc Ex_less_Suc)
  with pending have "obj_get (statuses ?R) ''r'' = obj_get (statuses inactive_state) ''r''"
    by blast
  then have r1: "obj_get (statuses ?R) ''r'' = Some ''inactive''"
    by (simp add: inactive_state_def twenty_ids_def obj_get_def)
  have r2: "obj_get (statuses ?F) ''r'' = Some ''deleted''"
    using at_end[rule_format, of 1 7] by (simp add: split_twenty_ids rate_limited_env_def)
  have "\<forall>j<length (split twenty_ids None None). \<forall>i<length (split twenty_ids None None ! j).
          split twenty_ids None None ! j ! i = ''q'' \<longrightarrow> delete_api rate_limited_env j i ''q'' \<noteq> Inr ()"
    by (simp add: rate_limited_env_def)
  with never have "obj_get (statuses ?F) ''q'' = obj_get (statuses inactive_state) ''q''"
    by blast
  then have q: "obj_get (statuses ?F) ''q'' = Some ''inactive''"
    by (simp add: inactive_state_def twenty_ids_def obj_get_def)
  have s: "DeleteStream ''a'' \<in> set (sent ?R)"
    using all_sent[rule_format, of 0 "''a''"] by (simp add: split_twenty_ids)
  from r a i p r1 r2 q s show ?thesis by blast
qed

theorem deleted_is_final_witness:
  "obj_get (statuses abc_state) ''C'' = Some ''deleted''
   \<and> ''C'' \<notin> set (streamIdsToBeChecked (statuses abc_state))
   \<and> obj_get (statuses (snd (batchCheckStreamStatuses quiet_env
        (streamIdsToBeChecked (statuses abc_state)) abc_state))) ''C'' = Some ''deleted''
   \<and> ''C'' \<notin> set (streamIdsToBeDeleted (statuses abc_state))
   \<and> obj_get (statuses (snd (deleteStreams \<lparr>dryRun = False\<rparr> quiet_env abc_state))) ''C''
       = Some ''deleted''"
proof -
  have h: "obj_get (statuses abc_state) ''C'' = Some ''deleted''"
    by (simp add: abc_state_def abc_ledger_def obj_get_def)
  from deleted_is_final[OF h, of quiet_env "\<lparr>dryRun = False\<rparr>"] h show ?thesis
    by blast
qed

subsection \<open>The stages of a run\<close>

lemma then_do_Inr: "then_do (Inr v, s) f = f v s"
  by (simp add: then_do_def)

lemma then_do_Inl: "then_do (Inl err, s) f = (Inl err, s)"
  by (simp add: then_do_def)

lemma then_do_resolved: "fst p = Inr v \<Longrightarrow> then_do p f = f v (snd p)"
  by (cases p) (simp add: then_do_def)

lemma storeStreamStatus_fst: "fst (storeStreamStatus s) = Inr ()"
  by (simp add: storeStreamStatus_def)

lemma storeStreamStatus_statuses: "statuses (snd (storeStreamStatus s)) = statuses s"
  by (simp add: storeStreamStatus_def)

lemma storeStreamStatus_sent: "sent (snd (storeStreamStatus s)) = sent s"
  by (simp add: storeStreamStatus_def)

lemma resume_unfold:
  assumes "getStreamStatus s = (Inr (), s1)"
  shows "resume args e s =
     (let s2 = snd (batchCheckStreamStatuses e (streamIdsToBeChecked (statuses s1)) s1);
          s3 = snd (storeStreamStatus s2);
          s4 = snd (deleteStreams args e s3);
          late = outstandingDeletes args e (statuses s3);
          s5 = snd (storeStreamStatus (answered [BeforeCheckpoint] late s4));
          s6 = answered [BeforeReport] late s5
      in (Inr (report (statuses s6)), s6))"
  by (simp add: resume_def assms then_do_Inr Let_def
        then_do_resolved[OF batchCheckStreamStatuses_resolves]
        then_do_resolved[OF storeStreamStatus_fst]
        then_do_resolved[OF deleteStreams_resolves])

lemma resume_rejected:
  "getStreamStatus s = (Inl err, s1) \<Longrightarrow> resume args e s = (Inl err, s1)"
  by (simp add: resume_def then_do_Inl)

lemma start_unfold:
  assumes "list_api e = Inr ids"
  shows "start args e s =
     (let s1 = s\<lparr>sent := sent s @ [ListStreams]\<rparr>;
          s2 = snd (batchCheckStreamStatuses e ids (s1\<lparr>statuses := []\<rparr>));
          s3 = snd (storeStreamStatus s2);
          s4 = snd (deleteStreams args e s3);
          late = outstandingDeletes args e (statuses s3);
          s5 = snd (storeStreamStatus (answered [BeforeCheckpoint] late s4));
          s6 = answered [BeforeReport] late s5
      in (Inr (report (statuses s6)), s6))"
  by (simp add: start_def listStreamsRequest_def assms then_do_Inr Let_def
        then_do_resolved[OF batchCheckStreamStatuses_resolves]
        then_do_resolved[OF storeStreamStatus_fst]
        then_do_resolved[OF deleteStreams_resolves])

lemma start_rejected:
  "list_api e = Inl err \<Longrightarrow> start args e s = (Inl err, s\<lparr>sent := sent s @ [ListStreams]\<rparr>)"
  by (simp add: start_def listStreamsRequest_def then_do_Inl)

lemma batchCheckStreamStatuses_sent:
  "set (sent (snd (batchCheckStreamStatuses e ids s))) \<subseteq> set (sent s) \<union> Timeseries ` set ids"
  unfolding batchCheckStreamStatuses_def Let_def
proof (rule Promise_map_invariant[where P = "\<lambda>t. set (sent t) \<subseteq> set (sent s) \<union> Timeseries ` set ids"])
  show "set (sent s) \<subseteq> set (sent s) \<union> Timeseries ` set ids" by blast
next
  fix j and t :: state
  assume j: "j < length (split ids None None)"
     and t: "set (sent t) \<subseteq> set (sent s) \<union> Timeseries ` set ids"
  from split_batch_subset[OF j] t
  show "set (sent (snd (filterBatch (timeseries_api e j) (split ids None None ! j) t)))
          \<subseteq> set (sent s) \<union> Timeseries ` set ids"
    by (auto simp: filterBatch_sent)
qed

lemma batchDeleteStreams_sent:
  "set (sent (snd (batchDeleteStreams e ids s))) \<subseteq> set (sent s) \<union> DeleteStream ` set ids"
  unfolding batchDeleteStreams_def Let_def
proof (rule Promise_map_invariant[where P = "\<lambda>t. set (sent t) \<subseteq> set (sent s) \<union> DeleteStream ` set ids"])
  show "set (sent s) \<subseteq> set (sent s) \<union> DeleteStream ` set ids" by blast
next
  fix j and t :: state
  assume j: "j < length (split ids None None)"
     and t: "set (sent t) \<subseteq> set (sent s) \<union> DeleteStream ` set ids"
  from split_batch_subset[OF j] t
  show "set (sent (snd (deleteBatch (delete_api e j) (delete_arrival e j)
                           (split ids None None ! j) t)))
          \<subseteq> set (sent s) \<union> DeleteStream ` set ids"
    by (auto simp: deleteBatch_sent)
qed

lemma deleteStreams_sent:
  "set (sent (snd (deleteStreams args e s)))
     \<subseteq> set (sent s) \<union> DeleteStream ` set (streamIdsToBeDeleted (statuses s))"
  using batchDeleteStreams_sent[of e "streamIdsToBeDeleted (statuses s)" s]
  by (simp add: deleteStreams_def)

lemma foldl_report_step:
  "foldl (report_step l) r ks =
     \<lparr>unknown = unknown r @ filter (\<lambda>k. obj_get l k = Some ''unknown'') ks,
      inactive = inactive r @ filter (\<lambda>k. obj_get l k = Some ''inactive'') ks,
      deleted = deleted r @ filter (\<lambda>k. obj_get l k = Some ''deleted'') ks\<rparr>"
  by (induction ks arbitrary: r) (simp_all add: report_step_def)

lemma report_eq:
  "report l =
     \<lparr>unknown = filter (\<lambda>k. obj_get l k = Some ''unknown'') (obj_keys l),
      inactive = filter (\<lambda>k. obj_get l k = Some ''inactive'') (obj_keys l),
      deleted = filter (\<lambda>k. obj_get l k = Some ''deleted'') (obj_keys l)\<rparr>"
  by (simp add: report_def foldl_report_step)

lemma deleteStreams_frame:
  "k \<notin> set (streamIdsToBeDeleted (statuses s)) \<Longrightarrow>
   obj_get (statuses (snd (deleteStreams args e s))) k = obj_get (statuses s) k"
  by (simp add: deleteStreams_def batchDeleteStreams_frame)

lemma getStreamStatus_sent: "sent (snd (getStreamStatus s)) = sent s"
  by (simp add: getStreamStatus_def split: option.splits)

lemma getStreamStatus_loaded:
  "checkpoint s = Some text \<Longrightarrow> JSON_parse text = Some l \<Longrightarrow>
   getStreamStatus s = (Inr (), s\<lparr>statuses := l\<rparr>)"
  by (simp add: getStreamStatus_def)

text \<open>
  C7 (a dry run deletes nothing). With \<^verbatim>\<open>--dry-run\<close> the deletion phase returns the state
  it is given: the status object, and the list of requests sent, are the same. So a
  whole run, resumed or fresh, sends no delete request, and the status object it ends
  with is the one classification produced.
\<close>

theorem dry_run_no_op:
  assumes "dryRun args"
  shows "deleteStreams args e s = (Inr (), s)
       \<and> (\<forall>k. DeleteStream k \<in> set (sent (snd (resume args e s))) \<longrightarrow>
              DeleteStream k \<in> set (sent s))
       \<and> (\<forall>k. DeleteStream k \<in> set (sent (snd (start args e s))) \<longrightarrow>
              DeleteStream k \<in> set (sent s))
       \<and> (\<forall>s1. getStreamStatus s = (Inr (), s1) \<longrightarrow>
              statuses (snd (resume args e s)) =
              statuses (snd (batchCheckStreamStatuses e (streamIdsToBeChecked (statuses s1)) s1)))
       \<and> (\<forall>ids. list_api e = Inr ids \<longrightarrow>
              statuses (snd (start args e s)) =
              statuses (snd (batchCheckStreamStatuses e ids
                               (s\<lparr>sent := sent s @ [ListStreams], statuses := []\<rparr>))))"
proof (intro conjI allI impI)
  show dry: "deleteStreams args e s = (Inr (), s)" for s
    using assms by (simp add: deleteStreams_def)
  have none: "outstandingDeletes args e l = []" for l
    using assms by (simp add: outstandingDeletes_def)
  {
    fix k assume k: "DeleteStream k \<in> set (sent (snd (resume args e s)))"
    obtain r s1 where g: "getStreamStatus s = (r, s1)" by (cases "getStreamStatus s")
    have s1: "sent s1 = sent s" using getStreamStatus_sent[of s] g by simp
    show "DeleteStream k \<in> set (sent s)"
    proof (cases r)
      case (Inl err)
      with g k s1 show ?thesis by (simp add: resume_rejected)
    next
      case (Inr u)
      with g k have "DeleteStream k \<in> set (sent (snd (batchCheckStreamStatuses e
                        (streamIdsToBeChecked (statuses s1)) s1)))"
        by (simp add: resume_unfold Let_def dry none answered_none storeStreamStatus_sent)
      with batchCheckStreamStatuses_sent[of e "streamIdsToBeChecked (statuses s1)" s1] s1
      show ?thesis by auto
    qed
  }
  {
    fix k assume k: "DeleteStream k \<in> set (sent (snd (start args e s)))"
    show "DeleteStream k \<in> set (sent s)"
    proof (cases "list_api e")
      case (Inl err)
      with k show ?thesis by (simp add: start_rejected)
    next
      case (Inr ids)
      with k have "DeleteStream k \<in> set (sent (snd (batchCheckStreamStatuses e ids
                        (s\<lparr>sent := sent s @ [ListStreams], statuses := []\<rparr>))))"
        by (simp add: start_unfold Let_def dry none answered_none storeStreamStatus_sent)
      with batchCheckStreamStatuses_sent[of e ids "s\<lparr>sent := sent s @ [ListStreams], statuses := []\<rparr>"]
      show ?thesis by auto
    qed
  }
  {
    fix s1 assume "getStreamStatus s = (Inr (), s1)"
    then show "statuses (snd (resume args e s)) =
              statuses (snd (batchCheckStreamStatuses e (streamIdsToBeChecked (statuses s1)) s1))"
      by (simp add: resume_unfold Let_def dry none answered_none storeStreamStatus_statuses)
  }
  {
    fix ids assume "list_api e = Inr ids"
    then show "statuses (snd (start args e s)) =
              statuses (snd (batchCheckStreamStatuses e ids
                               (s\<lparr>sent := sent s @ [ListStreams], statuses := []\<rparr>)))"
      by (simp add: start_unfold Let_def dry none answered_none storeStreamStatus_statuses)
  }
qed

theorem dry_run_no_op_witness:
  "dryRun \<lparr>dryRun = True\<rparr>
   \<and> deleteStreams \<lparr>dryRun = True\<rparr> quiet_env abc_state = (Inr (), abc_state)
   \<and> DeleteStream ''B'' \<notin> set (sent (snd (resume \<lparr>dryRun = True\<rparr> quiet_env abc_state)))"
proof -
  have d: "dryRun \<lparr>dryRun = True\<rparr>" by simp
  note T = dry_run_no_op[OF d, of quiet_env abc_state]
  from T have "DeleteStream ''B'' \<in> set (sent (snd (resume \<lparr>dryRun = True\<rparr> quiet_env abc_state)))
      \<longrightarrow> DeleteStream ''B'' \<in> set (sent abc_state)"
    by blast
  then have "DeleteStream ''B'' \<notin> set (sent (snd (resume \<lparr>dryRun = True\<rparr> quiet_env abc_state)))"
    by (auto simp: abc_state_def)
  with T d show ?thesis by blast
qed

text \<open>
  C10 (an entry with another status). Let the checkpoint be read as the status object
  \<open>l\<close>, and let \<open>l\<close> give \<open>k\<close> a status that is none of \<^verbatim>\<open>"unknown"\<close>, \<^verbatim>\<open>"inactive"\<close>,
  \<^verbatim>\<open>"deleted"\<close>. Then \<open>k\<close> is not selected for classification, the resumed run ends with
  its report, \<open>k\<close> has the same status at the end, the run sends neither a timeseries nor
  a delete request for \<open>k\<close>, and \<open>k\<close> is in none of the three groups of the report.
\<close>

theorem unrecognised_status_kept_and_unreported:
  assumes "checkpoint s = Some text"
      and "JSON_parse text = Some l"
      and "obj_get l k = Some v"
      and "v \<noteq> ''unknown''" and "v \<noteq> ''inactive''" and "v \<noteq> ''deleted''"
  shows "k \<notin> set (streamIdsToBeChecked l)
       \<and> fst (resume args e s) = Inr (report (statuses (snd (resume args e s))))
       \<and> obj_get (statuses (snd (resume args e s))) k = Some v
       \<and> (Timeseries k \<in> set (sent (snd (resume args e s))) \<longrightarrow> Timeseries k \<in> set (sent s))
       \<and> (DeleteStream k \<in> set (sent (snd (resume args e s))) \<longrightarrow> DeleteStream k \<in> set (sent s))
       \<and> k \<notin> set (unknown (report (statuses (snd (resume args e s)))))
       \<and> k \<notin> set (inactive (report (statuses (snd (resume args e s)))))
       \<and> k \<notin> set (deleted (report (statuses (snd (resume args e s)))))"
proof -
  let ?s1 = "s\<lparr>statuses := l\<rparr>"
  let ?s2 = "snd (batchCheckStreamStatuses e (streamIdsToBeChecked l) ?s1)"
  let ?s3 = "snd (storeStreamStatus ?s2)"
  let ?s4 = "snd (deleteStreams args e ?s3)"
  let ?late = "outstandingDeletes args e (statuses ?s3)"
  let ?s5 = "snd (storeStreamStatus (answered [BeforeCheckpoint] ?late ?s4))"
  let ?s6 = "answered [BeforeReport] ?late ?s5"
  have run: "resume args e s = (Inr (report (statuses ?s6)), ?s6)"
    using resume_unfold[OF getStreamStatus_loaded[OF assms(1,2)], of args e]
    by (simp add: Let_def)
  have c: "k \<notin> set (streamIdsToBeChecked l)"
    using assms(3,4) by (simp add: in_streamIdsToBeChecked)
  have g2: "obj_get (statuses ?s2) k = Some v"
    using c assms(3) by (simp add: batchCheckStreamStatuses_frame)
  then have g3: "obj_get (statuses ?s3) k = Some v"
    by (simp add: storeStreamStatus_statuses)
  then have d: "k \<notin> set (streamIdsToBeDeleted (statuses ?s3))"
    using assms(5) by (simp add: in_streamIdsToBeDeleted)
  then have late: "(a, k) \<notin> set ?late" for a
    by (auto simp: outstandingDeletes_def dest: outstanding_subset)
  have g4: "obj_get (statuses ?s4) k = Some v"
    using d g3 by (simp add: deleteStreams_frame)
  then have g5: "obj_get (statuses ?s5) k = Some v"
    using late by (simp add: storeStreamStatus_statuses answered_get)
  then have g6: "obj_get (statuses ?s6) k = Some v"
    using late by (simp add: answered_get)
  have sent2: "set (sent ?s2) \<subseteq> set (sent s) \<union> Timeseries ` set (streamIdsToBeChecked l)"
    using batchCheckStreamStatuses_sent[of e "streamIdsToBeChecked l" ?s1] by simp
  have sent4: "set (sent ?s4) \<subseteq> set (sent ?s3) \<union> DeleteStream ` set (streamIdsToBeDeleted (statuses ?s3))"
    by (rule deleteStreams_sent)
  have sent6: "set (sent ?s6) \<subseteq> set (sent s) \<union> Timeseries ` set (streamIdsToBeChecked l)
                 \<union> DeleteStream ` set (streamIdsToBeDeleted (statuses ?s3))"
    using sent2 sent4 by (auto simp: storeStreamStatus_sent answered_sent)
  have t: "Timeseries k \<in> set (sent ?s6) \<longrightarrow> Timeseries k \<in> set (sent s)"
    using sent6 c by auto
  have x: "DeleteStream k \<in> set (sent ?s6) \<longrightarrow> DeleteStream k \<in> set (sent s)"
    using sent6 d by auto
  have r: "k \<notin> set (unknown (report (statuses ?s6)))"
          "k \<notin> set (inactive (report (statuses ?s6)))"
          "k \<notin> set (deleted (report (statuses ?s6)))"
    using g6 assms(4,5,6) by (simp_all add: report_eq)
  from c g6 t x r show ?thesis
    unfolding run by simp
qed

lemma parse_abc_ledger: "JSON_parse (JSON_stringify abc_ledger) = Some abc_ledger"
  by code_simp

theorem unrecognised_status_kept_and_unreported_witness:
  "obj_get abc_ledger ''E'' = Some ''archived''
   \<and> ''E'' \<notin> set (streamIdsToBeChecked abc_ledger)
   \<and> obj_get (statuses (snd (resume \<lparr>dryRun = False\<rparr> quiet_env abc_state))) ''E'' = Some ''archived''
   \<and> DeleteStream ''E'' \<notin> set (sent (snd (resume \<lparr>dryRun = False\<rparr> quiet_env abc_state)))
   \<and> ''E'' \<notin> set (unknown (report (statuses (snd (resume \<lparr>dryRun = False\<rparr> quiet_env abc_state)))))
   \<and> ''E'' \<notin> set (inactive (report (statuses (snd (resume \<lparr>dryRun = False\<rparr> quiet_env abc_state)))))
   \<and> ''E'' \<notin> set (deleted (report (statuses (snd (resume \<lparr>dryRun = False\<rparr> quiet_env abc_state)))))"
proof -
  have c: "checkpoint abc_state = Some (JSON_stringify abc_ledger)"
    by (simp add: abc_state_def)
  have g: "obj_get abc_ledger ''E'' = Some ''archived''"
    by (simp add: abc_ledger_def obj_get_def)
  note T = unrecognised_status_kept_and_unreported[OF c parse_abc_ledger g,
             of "\<lparr>dryRun = False\<rparr>" quiet_env]
  have "sent abc_state = []" by (simp add: abc_state_def)
  with T g show ?thesis by simp
qed

subsection \<open>Reading back what was written\<close>

lemma of_char_bounds: "0 \<le> (of_char c :: int)" "(of_char c :: int) < 256"
proof -
  have "(of_char c :: int) = int (of_char c)" by (simp add: of_nat_of_char)
  then show "0 \<le> (of_char c :: int)" "(of_char c :: int) < 256"
    using nat_of_char_less_256[of c] by simp_all
qed

lemma hex_value_hex_digit:
  "0 \<le> n \<Longrightarrow> n < 16 \<Longrightarrow> hex_value (hex_digit n) = Some n"
  by (auto simp: hex_value_def hex_digit_def Let_def)

lemma hex_value_zero: "hex_value CHR ''0'' = Some 0"
  by (simp add: hex_value_def)

lemma parse_chars_quote_char:
  "parse_chars acc (quote_char c @ rest) = parse_chars (acc @ [c]) rest"
proof -
  consider "c = CHR 0x22" | "c = CHR 0x5C" | "c = CHR 0x08" | "c = CHR 0x09" | "c = CHR 0x0A"
    | "c = CHR 0x0C" | "c = CHR 0x0D"
    | "c \<notin> {CHR 0x22, CHR 0x5C, CHR 0x08, CHR 0x09, CHR 0x0A, CHR 0x0C, CHR 0x0D}"
      "(of_char c :: int) < 32"
    | "c \<notin> {CHR 0x22, CHR 0x5C, CHR 0x08, CHR 0x09, CHR 0x0A, CHR 0x0C, CHR 0x0D}"
      "\<not> (of_char c :: int) < 32"
    by blast
  then show ?thesis
  proof cases
    case 8
    let ?n = "of_char c :: int"
    have hi: "hex_value (hex_digit (?n div 16)) = Some (?n div 16)"
      using "8"(2) of_char_bounds(1)[of c] by (intro hex_value_hex_digit) auto
    have lo: "hex_value (hex_digit (?n mod 16)) = Some (?n mod 16)"
      by (intro hex_value_hex_digit) auto
    have same: "char_of (16 * (?n div 16) + ?n mod 16) = c"
      by simp
    from "8" show ?thesis
      by (simp add: quote_char_def hex_value_zero hi lo same)
  next
    case 9
    then show ?thesis by (simp add: quote_char_def)
  qed (simp_all add: quote_char_def unescape_def)
qed

lemma parse_chars_quoted:
  "parse_chars acc (concat (map quote_char s) @ CHR 0x22 # rest) = Some (acc @ s, rest)"
  by (induction s arbitrary: acc) (simp_all add: parse_chars_quote_char)

lemma parse_string_quoted: "parse_string (QuoteJSONString s @ rest) = Some (s, rest)"
  using parse_chars_quoted[of "[]" s rest] by (simp add: parse_string_def QuoteJSONString_def)

lemma skip_ws_quoted: "skip_ws (QuoteJSONString s @ rest) = QuoteJSONString s @ rest"
  by (simp add: QuoteJSONString_def is_ws_def)

lemma parse_member_quoted:
  "parse_member (QuoteJSONString k @ CHR '':'' # QuoteJSONString v @ rest)
     = Some ((k, v), skip_ws rest)"
  by (simp add: parse_member_def skip_ws_quoted parse_string_quoted is_ws_def)

lemma parse_members_written:
  "l \<noteq> [] \<Longrightarrow>
   parse_members obj
     (join_comma (map (\<lambda>(k, v). QuoteJSONString k @ CHR '':'' # QuoteJSONString v) l) @ [CHR ''}''])
   = Some (foldl (\<lambda>ob (k, v). obj_set ob k v) obj l)"
proof (induction l arbitrary: obj)
  case Nil
  then show ?case by simp
next
  case (Cons m l)
  obtain k v where m: "m = (k, v)" by (cases m)
  show ?case
  proof (cases l)
    case Nil
    with m show ?thesis
      by (simp add: parse_members.simps[of obj] parse_member_quoted is_ws_def)
  next
    case (Cons m' l')
    with m Cons.IH[of "obj_set obj k v"] show ?thesis
      by (simp add: parse_members.simps[of obj] parse_member_quoted is_ws_def)
  qed
qed

lemma members_text_starts:
  "l \<noteq> [] \<Longrightarrow>
   \<exists>rest. join_comma (map (\<lambda>(k, v). QuoteJSONString k @ CHR '':'' # QuoteJSONString v) l)
            @ [CHR ''}''] = CHR 0x22 # rest"
proof (cases l)
  case Nil
  assume "l \<noteq> []"
  with Nil show ?thesis by simp
next
  case (Cons m l')
  obtain k v where "m = (k, v)" by (cases m)
  with Cons show ?thesis
    by (cases l') (simp_all add: QuoteJSONString_def)
qed

lemma JSON_parse_stringify:
  "JSON_parse (JSON_stringify l) = Some (foldl (\<lambda>ob (k, v). obj_set ob k v) [] l)"
proof (cases "l = []")
  case True
  then show ?thesis by (simp add: JSON_parse_def JSON_stringify_def is_ws_def)
next
  case False
  let ?t = "join_comma (map (\<lambda>(k, v). QuoteJSONString k @ CHR '':'' # QuoteJSONString v) l)
            @ [CHR ''}'']"
  from members_text_starts[OF False] obtain rest where t: "?t = CHR 0x22 # rest" ..
  have "JSON_parse (CHR ''{'' # ?t) = parse_members [] ?t"
    unfolding t by (simp add: JSON_parse_def is_ws_def)
  then show ?thesis
    by (simp add: JSON_stringify_def parse_members_written[OF False])
qed

lemma obj_get_foldl_members:
  "distinct (map fst l) \<Longrightarrow>
   obj_get (foldl (\<lambda>ob (k, v). obj_set ob k v) obj l) k =
     (case map_of l k of Some v \<Rightarrow> Some v | None \<Rightarrow> obj_get obj k)"
proof (induction l arbitrary: obj)
  case Nil
  show ?case by simp
next
  case (Cons m l)
  obtain k' v' where m: "m = (k', v')" by (cases m)
  from Cons.prems m have d: "distinct (map fst l)" and n: "map_of l k' = None"
    by (auto simp: map_of_eq_None_iff)
  show ?case
    using Cons.IH[OF d, of "obj_set obj k' v'"] m n
    by (auto simp: obj_get_set split: option.splits)
qed

lemma load_after_save:
  assumes "distinct (obj_keys l)"
  shows "\<exists>l'. JSON_parse (JSON_stringify l) = Some l' \<and> (\<forall>k. obj_get l' k = obj_get l k)"
proof -
  have "obj_get (foldl (\<lambda>ob (k, v). obj_set ob k v) [] l) k = obj_get l k" for k
    using obj_get_foldl_members[of l "[]" k] assms
    by (simp add: obj_keys_def obj_get_def split: option.splits)
  then show ?thesis
    by (simp add: JSON_parse_stringify)
qed

lemma insert_index_keys:
  "set (map fst (insert_index k v l)) = insert k (set (map fst l))"
proof (induction l)
  case Nil
  show ?case by simp
next
  case (Cons p l)
  obtain k' v' where p: "p = (k', v')" by (cases p)
  show ?case
  proof (cases "is_array_index k' \<and> numeric_value k' < numeric_value k")
    case True
    with p Cons.IH show ?thesis by (simp add: insert_commute)
  next
    case False
    with p show ?thesis by auto
  qed
qed

lemma insert_index_distinct:
  "k \<notin> set (map fst l) \<Longrightarrow> distinct (map fst l) \<Longrightarrow> distinct (map fst (insert_index k v l))"
proof (induction l)
  case Nil
  show ?case by simp
next
  case (Cons p l)
  obtain k' v' where p: "p = (k', v')" by (cases p)
  from Cons.prems p have n: "k \<noteq> k'" "k \<notin> set (map fst l)" "k' \<notin> set (map fst l)"
      and d: "distinct (map fst l)"
    by auto
  from n have "k' \<notin> set (map fst (insert_index k v l))"
    by (simp only: insert_index_keys) auto
  with Cons.IH[OF n(2) d] n d p show ?case
    by simp
qed

lemma replace_keys:
  "map fst (map (\<lambda>(k', v'). if k' = k then (k', v) else (k', v')) l) = map fst l"
  by (induction l) auto

lemma obj_set_distinct:
  "distinct (obj_keys l) \<Longrightarrow> distinct (obj_keys (obj_set l k v))"
  unfolding obj_keys_def obj_set_def
  by (simp only: replace_keys split: if_split) (simp add: insert_index_distinct)

lemma foldl_members_distinct:
  "distinct (obj_keys ob) \<Longrightarrow> distinct (obj_keys (foldl (\<lambda>ob (k, v). obj_set ob k v) ob l))"
proof (induction l arbitrary: ob)
  case Nil
  then show ?case by simp
next
  case (Cons m l)
  obtain k v where "m = (k, v)" by (cases m)
  with Cons show ?case by (simp add: obj_set_distinct)
qed

lemma loaded_is_object:
  "JSON_parse (JSON_stringify l) = Some l' \<Longrightarrow> distinct (obj_keys l')"
  using foldl_members_distinct[of "[]" l] by (simp add: JSON_parse_stringify obj_keys_def)

text \<open>
  C9 (the checkpoint round trip). Let \<open>s\<close> hold a status object (its keys are distinct)
  and let \<open>storeStreamStatus\<close> write it. Then in every state whose file has that content,
  whatever status object the state holds, \<open>getStreamStatus\<close> succeeds and reads a status
  object with the same status for every identifier. The content written depends on the
  status object only, so writing it again leaves the same content.
\<close>

theorem checkpoint_round_trip:
  assumes "distinct (obj_keys (statuses s))"
  shows "(\<forall>t. checkpoint t = checkpoint (snd (storeStreamStatus s)) \<longrightarrow>
            (\<exists>l'. getStreamStatus t = (Inr (), t\<lparr>statuses := l'\<rparr>)
                  \<and> distinct (obj_keys l')
                  \<and> (\<forall>k. obj_get l' k = obj_get (statuses s) k)))
       \<and> checkpoint (snd (storeStreamStatus (snd (storeStreamStatus s))))
           = checkpoint (snd (storeStreamStatus s))
       \<and> (\<forall>s'. statuses s' = statuses s \<longrightarrow>
              checkpoint (snd (storeStreamStatus s')) = checkpoint (snd (storeStreamStatus s)))"
proof -
  from load_after_save[OF assms] obtain l' where
    l': "JSON_parse (JSON_stringify (statuses s)) = Some l'"
        "\<forall>k. obj_get l' k = obj_get (statuses s) k"
    by blast
  have "getStreamStatus t = (Inr (), t\<lparr>statuses := l'\<rparr>)"
    if "checkpoint t = checkpoint (snd (storeStreamStatus s))" for t
    using that l'(1) by (simp add: storeStreamStatus_def getStreamStatus_def)
  with l'(2) loaded_is_object[OF l'(1)] show ?thesis
    by (auto simp: storeStreamStatus_def)
qed

theorem checkpoint_round_trip_witness:
  "distinct (obj_keys (statuses abc_state))
   \<and> (\<exists>l'. getStreamStatus
               \<lparr>statuses = [], sent = [],
                checkpoint = checkpoint (snd (storeStreamStatus abc_state))\<rparr>
             = (Inr (), \<lparr>statuses = l', sent = [],
                         checkpoint = checkpoint (snd (storeStreamStatus abc_state))\<rparr>)
           \<and> obj_get l' ''B'' = Some ''inactive'' \<and> obj_get l' ''E'' = Some ''archived''
           \<and> obj_get l' ''Z'' = None)
   \<and> checkpoint (snd (storeStreamStatus (snd (storeStreamStatus abc_state))))
       = checkpoint (snd (storeStreamStatus abc_state))"
proof -
  let ?t = "\<lparr>statuses = [], sent = [],
             checkpoint = checkpoint (snd (storeStreamStatus abc_state))\<rparr>"
  have d: "distinct (obj_keys (statuses abc_state))"
    by (simp add: abc_state_def abc_ledger_def obj_keys_def)
  have g: "obj_get (statuses abc_state) ''B'' = Some ''inactive''"
          "obj_get (statuses abc_state) ''E'' = Some ''archived''"
          "obj_get (statuses abc_state) ''Z'' = None"
    by (simp_all add: abc_state_def abc_ledger_def obj_get_def)
  have c: "checkpoint ?t = checkpoint (snd (storeStreamStatus abc_state))"
    by simp
  from checkpoint_round_trip[OF d] have
    L: "\<forall>t. checkpoint t = checkpoint (snd (storeStreamStatus abc_state)) \<longrightarrow>
            (\<exists>l'. getStreamStatus t = (Inr (), t\<lparr>statuses := l'\<rparr>)
                  \<and> distinct (obj_keys l')
                  \<and> (\<forall>k. obj_get l' k = obj_get (statuses abc_state) k))" and
    C: "checkpoint (snd (storeStreamStatus (snd (storeStreamStatus abc_state))))
          = checkpoint (snd (storeStreamStatus abc_state))"
    by blast+
  from L[rule_format, OF c] obtain l' where
    l': "getStreamStatus ?t = (Inr (), ?t\<lparr>statuses := l'\<rparr>)"
        "\<forall>k. obj_get l' k = obj_get (statuses abc_state) k"
    by blast
  from l'(2) g have "obj_get l' ''B'' = Some ''inactive''" "obj_get l' ''E'' = Some ''archived''"
      "obj_get l' ''Z'' = None"
    by simp_all
  moreover from l'(1) have "getStreamStatus ?t
      = (Inr (), \<lparr>statuses = l', sent = [],
                  checkpoint = checkpoint (snd (storeStreamStatus abc_state))\<rparr>)"
    by simp
  ultimately have "\<exists>l'. getStreamStatus ?t
             = (Inr (), \<lparr>statuses = l', sent = [],
                         checkpoint = checkpoint (snd (storeStreamStatus abc_state))\<rparr>)
           \<and> obj_get l' ''B'' = Some ''inactive'' \<and> obj_get l' ''E'' = Some ''archived''
           \<and> obj_get l' ''Z'' = None"
    by blast
  with d C show ?thesis by blast
qed

subsection \<open>A resumed run over eleven identifiers\<close>

lemma eleven_loaded:
  "JSON_parse (JSON_stringify (map (\<lambda>k. (k, ''unknown'')) eleven_ids))
     = Some (map (\<lambda>k. (k, ''unknown'')) eleven_ids)"
  "JSON_parse (JSON_stringify (map (\<lambda>k. (k, ''inactive'')) eleven_ids))
     = Some (map (\<lambda>k. (k, ''inactive'')) eleven_ids)"
  unfolding JSON_parse_stringify by code_simp+

lemma eleven_unknown_checked:
  "snd (batchCheckStreamStatuses quiet_env
          (streamIdsToBeChecked (map (\<lambda>k. (k, ''unknown'')) eleven_ids))
          \<lparr>statuses = map (\<lambda>k. (k, ''unknown'')) eleven_ids, sent = [], checkpoint = Some (JSON_stringify (map (\<lambda>k. (k, ''unknown'')) eleven_ids))\<rparr>)
   = \<lparr>statuses =
        [(''a'', ''inactive''), (''b'', ''inactive''), (''c'', ''inactive''), (''d'', ''inactive''),
         (''e'', ''inactive''), (''f'', ''inactive''), (''g'', ''inactive''), (''h'', ''inactive''),
         (''i'', ''inactive''), (''j'', ''inactive''), (''k'', ''unknown'')],
      sent = [Timeseries ''a'', Timeseries ''b'', Timeseries ''c'', Timeseries ''d'',
          Timeseries ''e'', Timeseries ''f'', Timeseries ''g'', Timeseries ''h'',
          Timeseries ''i'', Timeseries ''j''],
      checkpoint = Some (JSON_stringify (map (\<lambda>k. (k, ''unknown'')) eleven_ids))\<rparr>"
  by code_simp

lemma eleven_unknown_deleted:
  "snd (deleteStreams \<lparr>dryRun = False\<rparr> quiet_env
          \<lparr>statuses =
             [(''a'', ''inactive''), (''b'', ''inactive''), (''c'', ''inactive''), (''d'', ''inactive''),
              (''e'', ''inactive''), (''f'', ''inactive''), (''g'', ''inactive''), (''h'', ''inactive''),
              (''i'', ''inactive''), (''j'', ''inactive''), (''k'', ''unknown'')],
           sent = [Timeseries ''a'', Timeseries ''b'', Timeseries ''c'', Timeseries ''d'',
          Timeseries ''e'', Timeseries ''f'', Timeseries ''g'', Timeseries ''h'',
          Timeseries ''i'', Timeseries ''j''],
           checkpoint = Some (JSON_stringify
        [(''a'', ''inactive''), (''b'', ''inactive''), (''c'', ''inactive''), (''d'', ''inactive''),
         (''e'', ''inactive''), (''f'', ''inactive''), (''g'', ''inactive''), (''h'', ''inactive''),
         (''i'', ''inactive''), (''j'', ''inactive''), (''k'', ''unknown'')])\<rparr>)
   = \<lparr>statuses =
        [(''a'', ''deleted''), (''b'', ''deleted''), (''c'', ''deleted''), (''d'', ''deleted''),
         (''e'', ''deleted''), (''f'', ''deleted''), (''g'', ''deleted''), (''h'', ''deleted''),
         (''i'', ''deleted''), (''j'', ''deleted''), (''k'', ''unknown'')],
      sent = [Timeseries ''a'', Timeseries ''b'', Timeseries ''c'', Timeseries ''d'',
          Timeseries ''e'', Timeseries ''f'', Timeseries ''g'', Timeseries ''h'',
          Timeseries ''i'', Timeseries ''j'']
             @ [DeleteStream ''a'', DeleteStream ''b'', DeleteStream ''c'', DeleteStream ''d'',
          DeleteStream ''e'', DeleteStream ''f'', DeleteStream ''g'', DeleteStream ''h'',
          DeleteStream ''i'', DeleteStream ''j''],
      checkpoint = Some (JSON_stringify
        [(''a'', ''inactive''), (''b'', ''inactive''), (''c'', ''inactive''), (''d'', ''inactive''),
         (''e'', ''inactive''), (''f'', ''inactive''), (''g'', ''inactive''), (''h'', ''inactive''),
         (''i'', ''inactive''), (''j'', ''inactive''), (''k'', ''unknown'')])\<rparr>"
  "outstandingDeletes \<lparr>dryRun = False\<rparr> quiet_env
        [(''a'', ''inactive''), (''b'', ''inactive''), (''c'', ''inactive''), (''d'', ''inactive''),
         (''e'', ''inactive''), (''f'', ''inactive''), (''g'', ''inactive''), (''h'', ''inactive''),
         (''i'', ''inactive''), (''j'', ''inactive''), (''k'', ''unknown'')] = []"
  by code_simp+

lemma eleven_inactive_checked:
  "snd (batchCheckStreamStatuses quiet_env
          (streamIdsToBeChecked (map (\<lambda>k. (k, ''inactive'')) eleven_ids))
          \<lparr>statuses = map (\<lambda>k. (k, ''inactive'')) eleven_ids, sent = [], checkpoint = Some (JSON_stringify (map (\<lambda>k. (k, ''inactive'')) eleven_ids))\<rparr>)
   = \<lparr>statuses = map (\<lambda>k. (k, ''inactive'')) eleven_ids, sent = [], checkpoint = Some (JSON_stringify (map (\<lambda>k. (k, ''inactive'')) eleven_ids))\<rparr>"
  by code_simp

lemma eleven_inactive_deleted:
  "snd (deleteStreams \<lparr>dryRun = False\<rparr> quiet_env
          \<lparr>statuses = map (\<lambda>k. (k, ''inactive'')) eleven_ids, sent = [], checkpoint = Some (JSON_stringify (map (\<lambda>k. (k, ''inactive'')) eleven_ids))\<rparr>)
   = \<lparr>statuses =
        [(''a'', ''deleted''), (''b'', ''deleted''), (''c'', ''deleted''), (''d'', ''deleted''),
         (''e'', ''deleted''), (''f'', ''deleted''), (''g'', ''deleted''), (''h'', ''deleted''),
         (''i'', ''deleted''), (''j'', ''deleted''), (''k'', ''inactive'')],
      sent = [DeleteStream ''a'', DeleteStream ''b'', DeleteStream ''c'', DeleteStream ''d'',
          DeleteStream ''e'', DeleteStream ''f'', DeleteStream ''g'', DeleteStream ''h'',
          DeleteStream ''i'', DeleteStream ''j''],
      checkpoint = Some (JSON_stringify (map (\<lambda>k. (k, ''inactive'')) eleven_ids))\<rparr>"
  "outstandingDeletes \<lparr>dryRun = False\<rparr> quiet_env (map (\<lambda>k. (k, ''inactive'')) eleven_ids) = []"
  by code_simp+

text \<open>
  C8 (what a resumed run checks and deletes). The identifiers selected are exactly the
  \<^verbatim>\<open>"unknown"\<close> ones, then exactly the \<^verbatim>\<open>"inactive"\<close> ones, but the batcher drops the
  remainder after the last full batch (C1). With eleven \<^verbatim>\<open>"unknown"\<close> identifiers in the
  checkpoint, all eleven are selected, no timeseries request is sent for the eleventh
  and it stays \<^verbatim>\<open>"unknown"\<close>, while the tenth is classified and deleted; with eleven
  \<^verbatim>\<open>"inactive"\<close> identifiers, no delete request is sent for the eleventh and it stays
  \<^verbatim>\<open>"inactive"\<close>. Every request of this run succeeds.
\<close>

theorem resume_leaves_the_eleventh:
  "streamIdsToBeChecked (map (\<lambda>k. (k, ''unknown'')) eleven_ids) = eleven_ids
   \<and> Timeseries ''k'' \<notin> set (sent (snd (resume \<lparr>dryRun = False\<rparr> quiet_env eleven_unknown)))
   \<and> obj_get (statuses (snd (resume \<lparr>dryRun = False\<rparr> quiet_env eleven_unknown))) ''k''
       = Some ''unknown''
   \<and> obj_get (statuses (snd (resume \<lparr>dryRun = False\<rparr> quiet_env eleven_unknown))) ''j''
       = Some ''deleted''
   \<and> streamIdsToBeDeleted (map (\<lambda>k. (k, ''inactive'')) eleven_ids) = eleven_ids
   \<and> DeleteStream ''k'' \<notin> set (sent (snd (resume \<lparr>dryRun = False\<rparr> quiet_env eleven_inactive)))
   \<and> obj_get (statuses (snd (resume \<lparr>dryRun = False\<rparr> quiet_env eleven_inactive))) ''k''
       = Some ''inactive''
   \<and> obj_get (statuses (snd (resume \<lparr>dryRun = False\<rparr> quiet_env eleven_inactive))) ''j''
       = Some ''deleted''"
proof -
  have gu: "getStreamStatus eleven_unknown
      = (Inr (), eleven_unknown\<lparr>statuses := map (\<lambda>k. (k, ''unknown'')) eleven_ids\<rparr>)"
    by (rule getStreamStatus_loaded[OF _ eleven_loaded(1)]) (simp add: eleven_unknown_def)
  have gi: "getStreamStatus eleven_inactive
      = (Inr (), eleven_inactive\<lparr>statuses := map (\<lambda>k. (k, ''inactive'')) eleven_ids\<rparr>)"
    by (rule getStreamStatus_loaded[OF _ eleven_loaded(2)]) (simp add: eleven_inactive_def)
  have su: "eleven_unknown\<lparr>statuses := map (\<lambda>k. (k, ''unknown'')) eleven_ids\<rparr>
      = \<lparr>statuses = map (\<lambda>k. (k, ''unknown'')) eleven_ids, sent = [],
         checkpoint = Some (JSON_stringify (map (\<lambda>k. (k, ''unknown'')) eleven_ids))\<rparr>"
    by (simp add: eleven_unknown_def)
  have si: "eleven_inactive\<lparr>statuses := map (\<lambda>k. (k, ''inactive'')) eleven_ids\<rparr>
      = \<lparr>statuses = map (\<lambda>k. (k, ''inactive'')) eleven_ids, sent = [],
         checkpoint = Some (JSON_stringify (map (\<lambda>k. (k, ''inactive'')) eleven_ids))\<rparr>"
    by (simp add: eleven_inactive_def)
  have ru: "statuses (snd (resume \<lparr>dryRun = False\<rparr> quiet_env eleven_unknown)) =
     [(''a'', ''deleted''), (''b'', ''deleted''), (''c'', ''deleted''), (''d'', ''deleted''),
      (''e'', ''deleted''), (''f'', ''deleted''), (''g'', ''deleted''), (''h'', ''deleted''),
      (''i'', ''deleted''), (''j'', ''deleted''), (''k'', ''unknown'')]"
     "sent (snd (resume \<lparr>dryRun = False\<rparr> quiet_env eleven_unknown)) =
     [Timeseries ''a'', Timeseries ''b'', Timeseries ''c'', Timeseries ''d'',
          Timeseries ''e'', Timeseries ''f'', Timeseries ''g'', Timeseries ''h'',
          Timeseries ''i'', Timeseries ''j'']
     @ [DeleteStream ''a'', DeleteStream ''b'', DeleteStream ''c'', DeleteStream ''d'',
          DeleteStream ''e'', DeleteStream ''f'', DeleteStream ''g'', DeleteStream ''h'',
          DeleteStream ''i'', DeleteStream ''j'']"
    by (simp_all add: resume_unfold[OF gu] Let_def su eleven_unknown_checked
          storeStreamStatus_def eleven_unknown_deleted answered_none)
  have ri: "statuses (snd (resume \<lparr>dryRun = False\<rparr> quiet_env eleven_inactive)) =
     [(''a'', ''deleted''), (''b'', ''deleted''), (''c'', ''deleted''), (''d'', ''deleted''),
      (''e'', ''deleted''), (''f'', ''deleted''), (''g'', ''deleted''), (''h'', ''deleted''),
      (''i'', ''deleted''), (''j'', ''deleted''), (''k'', ''inactive'')]"
     "sent (snd (resume \<lparr>dryRun = False\<rparr> quiet_env eleven_inactive)) =
     [DeleteStream ''a'', DeleteStream ''b'', DeleteStream ''c'', DeleteStream ''d'',
          DeleteStream ''e'', DeleteStream ''f'', DeleteStream ''g'', DeleteStream ''h'',
          DeleteStream ''i'', DeleteStream ''j'']"
    by (simp_all add: resume_unfold[OF gi] Let_def si eleven_inactive_checked
          storeStreamStatus_def eleven_inactive_deleted answered_none)
  show ?thesis
    by (simp add: ru ri obj_get_def eleven_ids_def
          streamIdsToBeChecked_def streamIdsToBeDeleted_def obj_keys_def)
qed

subsection \<open>A success that arrives after the failure of its batch\<close>

text \<open>
  What the early settling of a batch means for a whole run. Of three \<^verbatim>\<open>"inactive"\<close>
  identifiers the delete request for \<^verbatim>\<open>q\<close> fails first; the one for \<^verbatim>\<open>p\<close> succeeds after
  the second checkpoint is written, the one for \<^verbatim>\<open>r\<close> after the report. The second
  checkpoint then has all three \<^verbatim>\<open>"inactive"\<close>, and the report lists \<^verbatim>\<open>r\<close> as inactive.
\<close>

lemma late_success_missing_from_checkpoint:
  "delete_api late_env 0 0 ''p'' = Inr ()
   \<and> delete_api late_env 0 2 ''r'' = Inr ()
   \<and> checkpoint (snd (resume \<lparr>dryRun = False\<rparr> late_env pqr_state))
       = Some (JSON_stringify [(''p'', ''inactive''), (''q'', ''inactive''), (''r'', ''inactive'')])
   \<and> fst (resume \<lparr>dryRun = False\<rparr> late_env pqr_state)
       = Inr \<lparr>unknown = [], inactive = [''q'', ''r''], deleted = [''p'']\<rparr>"
  by code_simp

end
